theory Spec2Isabelle
  imports Main "HOL-Library.Word"
begin

unbundle bit_operations_syntax

section \<open>Bytes, machine integers, faults\<close>

text \<open>
  The block reader of \<^verbatim>\<open>table/block.cc\<close>. A buffer is a list of bytes; a pointer into
  the buffer is its offset from \<^verbatim>\<open>data_\<close> (a natural number: pointer arithmetic is done
  in 64 bits and does not wrap for a buffer that is in memory); every \<^verbatim>\<open>uint32_t\<close> is a
  32-bit word, so that \<open>+\<close> wraps as it does in the source.

  Two things end a C++ run without a result, and both are values of the model:
  a failed \<^verbatim>\<open>assert\<close>, and undefined behaviour (reading bytes that lie behind the end of
  the buffer, or taking the offset of a slice that does not point into the buffer).
\<close>

type_synonym byte = "8 word"
type_synonym u32 = "32 word"

datatype fault = AssertFailed | Undefined

datatype status = OK | Corruption string

text \<open>The bytes \<open>[p, p + n)\<close> of the buffer, as \<^verbatim>\<open>std::string::append(p, n)\<close> reads
  them.\<close>

definition read_bytes :: "byte list \<Rightarrow> nat \<Rightarrow> nat \<Rightarrow> fault + byte list" where
  "read_bytes d p n = (if p + n \<le> length d then Inr (take n (drop p d)) else Inl Undefined)"

text \<open>Modelled from the spec: \<^verbatim>\<open>DecodeFixed32\<close> (util/coding.h) is not among the sources.
  The spec: the integers of the block trailer "are 4-byte little-endian unsigned
  integers".\<close>

definition DecodeFixed32 :: "byte list \<Rightarrow> nat \<Rightarrow> u32" where
  "DecodeFixed32 d p =
     (ucast (d ! p) OR push_bit 8 (ucast (d ! (p + 1)))
      OR push_bit 16 (ucast (d ! (p + 2))) OR push_bit 24 (ucast (d ! (p + 3))))"

text \<open>Modelled from the spec: \<^verbatim>\<open>GetVarint32Ptr\<close> (util/coding.cc) is not among the
  sources. The spec: a decoder "taking (pointer, limit) and yielding either
  (new_pointer, value) or failure" for the "standard base-128 variable-length
  unsigned-integer encoding (7 data bits per byte, continuation bit set on all but the
  final byte, least-significant group first)"; an unsigned 32-bit value has at most five
  groups (shifts 0, 7, 14, 21, 28).\<close>

function GetVarint32Ptr_loop :: "byte list \<Rightarrow> nat \<Rightarrow> nat \<Rightarrow> nat \<Rightarrow> u32 \<Rightarrow> (nat \<times> u32) option" where
  "GetVarint32Ptr_loop d p limit shift result =
     (if shift \<le> 28 \<and> p < limit then
        (if (ucast (d ! p) :: u32) AND 128 \<noteq> 0
         then GetVarint32Ptr_loop d (p + 1) limit (shift + 7)
                (result OR push_bit shift ((ucast (d ! p) :: u32) AND 127))
         else Some (p + 1, result OR push_bit shift (ucast (d ! p) :: u32)))
      else None)"
  by pat_completeness auto
termination
  by (relation "measure (\<lambda>(d, p, limit, shift, result). 29 - shift)") auto

declare GetVarint32Ptr_loop.simps [simp del]

definition GetVarint32Ptr :: "byte list \<Rightarrow> nat \<Rightarrow> nat \<Rightarrow> (nat \<times> u32) option" where
  "GetVarint32Ptr d p limit = GetVarint32Ptr_loop d p limit 0 0"

section \<open>DecodeEntry\<close>

text \<open>
  \<^verbatim>\<open>DecodeEntry(p, limit, &shared, &non_shared, &value_length)\<close>: \<open>None\<close> is the
  \<^verbatim>\<open>NULL\<close> result, \<open>Some (q, shared, non_shared, value_length)\<close> the pointer to the key
  delta with the three lengths. \<^verbatim>\<open>limit - p\<close> is a signed pointer difference. The three
  lengths are read first (\<open>DecodeEntry_lengths\<close>), then checked against the bytes left;
  the sum \<^verbatim>\<open>*non_shared + *value_length\<close> is a \<^verbatim>\<open>uint32_t\<close> sum. After the lengths
  \<open>q \<le> limit\<close> (lemma \<open>DecodeEntry_lengths_bounds\<close>), so \<^verbatim>\<open>limit - p\<close> is \<open>limit - q\<close>
  on naturals.
\<close>

definition DecodeEntry_lengths :: "byte list \<Rightarrow> nat \<Rightarrow> nat \<Rightarrow> (nat \<times> u32 \<times> u32 \<times> u32) option" where
  "DecodeEntry_lengths d p limit =
     (if int limit - int p < 3 then None
      else if ((ucast (d ! p) :: u32) OR ucast (d ! (p + 1)) OR ucast (d ! (p + 2))) < 128
      then Some (p + 3, ucast (d ! p), ucast (d ! (p + 1)), ucast (d ! (p + 2)))
      else
        (case GetVarint32Ptr d p limit of
           None \<Rightarrow> None
         | Some (p1, shared) \<Rightarrow>
             (case GetVarint32Ptr d p1 limit of
                None \<Rightarrow> None
              | Some (p2, non_shared) \<Rightarrow>
                  (case GetVarint32Ptr d p2 limit of
                     None \<Rightarrow> None
                   | Some (p3, value_length) \<Rightarrow> Some (p3, shared, non_shared, value_length)))))"

definition DecodeEntry :: "byte list \<Rightarrow> nat \<Rightarrow> nat \<Rightarrow> (nat \<times> u32 \<times> u32 \<times> u32) option" where
  "DecodeEntry d p limit =
     (case DecodeEntry_lengths d p limit of
        None \<Rightarrow> None
      | Some (q, shared, non_shared, value_length) \<Rightarrow>
          if (of_nat (limit - q) :: u32) < non_shared + value_length then None
          else Some (q, shared, non_shared, value_length))"

subsection \<open>Where a decoded entry's lengths end\<close>

lemma GetVarint32Ptr_loop_bounds:
  "GetVarint32Ptr_loop d p limit shift result = Some (q, v) \<Longrightarrow> p < q \<and> q \<le> limit"
proof (induction d p limit shift result rule: GetVarint32Ptr_loop.induct)
  case (1 d p limit shift result)
  show ?case
  proof (cases "shift \<le> 28 \<and> p < limit")
    case False
    with "1.prems" show ?thesis by (simp add: GetVarint32Ptr_loop.simps)
  next
    case True
    show ?thesis
    proof (cases "(ucast (d ! p) :: u32) AND 128 \<noteq> 0")
      case c: True
      with True "1.prems" have "GetVarint32Ptr_loop d (p + 1) limit (shift + 7)
                (result OR push_bit shift ((ucast (d ! p) :: u32) AND 127)) = Some (q, v)"
        by (subst (asm) GetVarint32Ptr_loop.simps) simp
      from "1.IH"[OF True c this] show ?thesis by simp
    next
      case c: False
      with True "1.prems" show ?thesis
        by (subst (asm) GetVarint32Ptr_loop.simps) auto
    qed
  qed
qed

lemma GetVarint32Ptr_bounds:
  "GetVarint32Ptr d p limit = Some (q, v) \<Longrightarrow> p < q \<and> q \<le> limit"
  unfolding GetVarint32Ptr_def by (rule GetVarint32Ptr_loop_bounds)

lemma DecodeEntry_lengths_bounds:
  assumes "DecodeEntry_lengths d p limit = Some (q, sh, ns, vl)"
  shows "p + 3 \<le> q \<and> q \<le> limit"
proof (cases "((ucast (d ! p) :: u32) OR ucast (d ! (p + 1)) OR ucast (d ! (p + 2))) < 128")
  case True
  with assms show ?thesis
    by (auto simp: DecodeEntry_lengths_def split: if_splits)
next
  case False
  with assms obtain p1 a p2 b where
    "GetVarint32Ptr d p limit = Some (p1, a)"
    "GetVarint32Ptr d p1 limit = Some (p2, b)"
    "GetVarint32Ptr d p2 limit = Some (q, vl)"
    by (auto simp: DecodeEntry_lengths_def split: if_splits option.splits)
  then show ?thesis
    using GetVarint32Ptr_bounds[of d p limit p1 a] GetVarint32Ptr_bounds[of d p1 limit p2 b]
      GetVarint32Ptr_bounds[of d p2 limit q vl] by simp
qed

lemma DecodeEntry_Some:
  assumes "DecodeEntry d p limit = Some (q, sh, ns, vl)"
  shows "DecodeEntry_lengths d p limit = Some (q, sh, ns, vl)"
    and "p + 3 \<le> q" and "q \<le> limit" and "ns + vl \<le> (of_nat (limit - q) :: u32)"
proof -
  from assms show l: "DecodeEntry_lengths d p limit = Some (q, sh, ns, vl)"
    by (auto simp: DecodeEntry_def split: option.splits if_splits)
  from DecodeEntry_lengths_bounds[OF l] show "p + 3 \<le> q" and "q \<le> limit" by simp_all
  from assms l show "ns + vl \<le> (of_nat (limit - q) :: u32)"
    by (auto simp: DecodeEntry_def split: option.splits if_splits)
qed

lemma next_offset_after:
  fixes ns vl :: u32
  assumes "q \<le> limit" and "limit < 2 ^ 32" and "ns + vl \<le> (of_nat (limit - q) :: u32)"
  shows "unat (of_nat (q + unat ns + unat vl) :: u32) = q + unat (ns + vl)"
    and "q + unat (ns + vl) \<le> limit"
proof -
  have lq: "unat (of_nat (limit - q) :: u32) = limit - q"
    using assms(1,2) by (simp add: unat_of_nat del: of_nat_diff)
  from assms(3) have le: "unat (ns + vl) \<le> limit - q"
    using lq by (simp add: word_le_nat_alt del: of_nat_diff)
  with assms(1) show b: "q + unat (ns + vl) \<le> limit" by simp
  have e: "(of_nat (q + unat ns + unat vl) :: u32) = of_nat q + (ns + vl)"
    by simp
  have uq: "unat (of_nat q :: u32) = q"
    using assms(1,2) by (simp add: unat_of_nat)
  have "unat (of_nat q :: u32) + unat (ns + vl) < 2 ^ LENGTH(32)"
    using b assms(2) uq by simp
  then have "unat ((of_nat q :: u32) + (ns + vl)) = unat (of_nat q :: u32) + unat (ns + vl)"
    by (rule unat_add_lem[THEN iffD1])
  with e uq show "unat (of_nat (q + unat ns + unat vl) :: u32) = q + unat (ns + vl)"
    by (simp only:)
qed

section \<open>Block\<close>

text \<open>
  \<^verbatim>\<open>BlockContents\<close> is the buffer (a \<^verbatim>\<open>Slice\<close>) and the ownership flag. A \<open>block\<close>
  holds \<^verbatim>\<open>data_\<close>, \<^verbatim>\<open>size_\<close> (a \<^verbatim>\<open>size_t\<close>), \<^verbatim>\<open>restart_offset_\<close> and \<^verbatim>\<open>owned_\<close>.
  The constructor leaves \<^verbatim>\<open>restart_offset_\<close> unset on the two error paths: \<open>None\<close>.
  \<^verbatim>\<open>restart_offset_\<close> is the \<^verbatim>\<open>uint32_t restarts\<close> argument of the iterator.
\<close>

record BlockContents =
  contents_data :: "byte list"
  heap_allocated :: bool

record block =
  block_data :: "byte list"
  block_size :: nat
  restart_offset :: "u32 option"
  owned :: bool

definition NumRestarts :: "block \<Rightarrow> fault + u32" where
  "NumRestarts b =
     (if block_size b \<ge> 4 then Inr (DecodeFixed32 (block_data b) (block_size b - 4))
      else Inl AssertFailed)"

definition Block :: "BlockContents \<Rightarrow> fault + block" where
  "Block contents =
     (let b = \<lparr>block_data = contents_data contents,
                block_size = length (contents_data contents),
                restart_offset = None,
                owned = heap_allocated contents\<rparr>
      in if block_size b < 4 then Inr (b\<lparr>block_size := 0\<rparr>)
         else
           (let max_restarts_allowed = (block_size b - 4) div 4
            in case NumRestarts b of
                 Inl f \<Rightarrow> Inl f
               | Inr n \<Rightarrow>
                   if unat n > max_restarts_allowed then Inr (b\<lparr>block_size := 0\<rparr>)
                   else Inr (b\<lparr>restart_offset :=
                               Some (of_nat (block_size b - unat (1 + n) * 4))\<rparr>)))"

section \<open>Block::Iter\<close>

text \<open>
  A \<^verbatim>\<open>Slice\<close> held by the iterator is either a span of the block (offset from
  \<^verbatim>\<open>data_\<close>, length), or the empty slice of \<^verbatim>\<open>Slice()\<close> and \<^verbatim>\<open>Slice::clear()\<close>, whose
  pointer is not into the block.
\<close>

datatype slice = Slice nat nat | EmptySlice

text \<open>The comparator is the caller's, a parameter of the model
  (\<^verbatim>\<open>include/leveldb/comparator.h\<close> is not among the sources; the spec has it "consumed
  as an opaque total-order comparator" "over key byte spans returning
  negative/zero/positive"). The iterator calls it in two ways. \<open>compare a b\<close> is its
  result on two keys whose bytes are in memory. \<open>compare_beyond a n b\<close> is what it does
  when its first argument is a span of \<open>n\<close> bytes of which only the leading bytes \<open>a\<close>
  lie in the buffer: its result when it reads none of the bytes that are not there,
  undefined behaviour when it reads one.\<close>

record Comparator =
  compare :: "byte list \<Rightarrow> byte list \<Rightarrow> int"
  compare_beyond :: "byte list \<Rightarrow> nat \<Rightarrow> byte list \<Rightarrow> fault + int"

record iter =
  comparator :: Comparator
  data :: "byte list"
  restarts :: u32
  num_restarts :: u32
  current :: u32
  restart_index :: u32
  key :: "byte list"
  val :: slice
  status :: status

definition Iter :: "Comparator \<Rightarrow> byte list \<Rightarrow> u32 \<Rightarrow> u32 \<Rightarrow> fault + iter" where
  "Iter cmp d rs n =
     (if n > 0
      then Inr \<lparr>comparator = cmp, data = d, restarts = rs, num_restarts = n,
                current = rs, restart_index = n, key = [], val = EmptySlice, status = OK\<rparr>
      else Inl AssertFailed)"

definition Compare :: "iter \<Rightarrow> byte list \<Rightarrow> byte list \<Rightarrow> int" where
  "Compare it a b = compare (comparator it) a b"

text \<open>\<^verbatim>\<open>Compare(Slice(data_ + p, n), b)\<close>: the slice is built without a read, and the
  comparator is handed the span, in the buffer or not.\<close>

definition Compare_slice :: "iter \<Rightarrow> nat \<Rightarrow> nat \<Rightarrow> byte list \<Rightarrow> fault + int" where
  "Compare_slice it p n b =
     (if p + n \<le> length (data it) then Inr (Compare it (take n (drop p (data it))) b)
      else compare_beyond (comparator it) (drop p (data it)) n b)"

definition NextEntryOffset :: "iter \<Rightarrow> fault + u32" where
  "NextEntryOffset it =
     (case val it of Slice off len \<Rightarrow> Inr (of_nat (off + len)) | EmptySlice \<Rightarrow> Inl Undefined)"

definition GetRestartPoint :: "iter \<Rightarrow> u32 \<Rightarrow> fault + u32" where
  "GetRestartPoint it index =
     (if index < num_restarts it
      then Inr (DecodeFixed32 (data it) (unat (restarts it) + unat index * 4))
      else Inl AssertFailed)"

definition SeekToRestartPoint :: "u32 \<Rightarrow> iter \<Rightarrow> fault + iter" where
  "SeekToRestartPoint index it =
     (case GetRestartPoint it index of
        Inl f \<Rightarrow> Inl f
      | Inr offset \<Rightarrow> Inr (it\<lparr>key := [], restart_index := index, val := Slice (unat offset) 0\<rparr>))"

definition Valid :: "iter \<Rightarrow> bool" where
  "Valid it = (current it < restarts it)"

definition status_of :: "iter \<Rightarrow> status" where
  "status_of it = status it"

definition key_of :: "iter \<Rightarrow> fault + byte list" where
  "key_of it = (if Valid it then Inr (key it) else Inl AssertFailed)"

definition value_of :: "iter \<Rightarrow> fault + slice" where
  "value_of it = (if Valid it then Inr (val it) else Inl AssertFailed)"

definition CorruptionError :: "iter \<Rightarrow> iter" where
  "CorruptionError it =
     it\<lparr>current := restarts it, restart_index := num_restarts it,
        status := Corruption ''bad entry in block'', key := [], val := EmptySlice\<rparr>"

lemma unat_pred_less: "w \<noteq> 0 \<Longrightarrow> unat (w - 1) < unat (w :: u32)"
  by (simp add: unat_minus_one unat_gt_0)

text \<open>The loop at the end of \<^verbatim>\<open>ParseNextKey\<close> that moves \<^verbatim>\<open>restart_index_\<close> forward.\<close>

function ParseNextKey_restart :: "iter \<Rightarrow> fault + iter" where
  "ParseNextKey_restart it =
     (if restart_index it + 1 < num_restarts it then
        (case GetRestartPoint it (restart_index it + 1) of
           Inl f \<Rightarrow> Inl f
         | Inr r \<Rightarrow>
             if r < current it
             then ParseNextKey_restart (it\<lparr>restart_index := restart_index it + 1\<rparr>)
             else Inr it)
      else Inr it)"
  by pat_completeness auto
termination
proof (relation "measure (\<lambda>it. unat (num_restarts it - 1 - restart_index it))")
  show "wf (measure (\<lambda>it. unat (num_restarts it - 1 - restart_index it)))" by simp
next
  fix it :: iter and r :: u32
  assume lt: "restart_index it + 1 < num_restarts it"
  let ?w = "num_restarts it - 1 - restart_index it"
  have "?w \<noteq> 0"
  proof
    assume "?w = 0"
    then have "num_restarts it - 1 = restart_index it" by simp
    then have "restart_index it + 1 = num_restarts it - 1 + 1" by simp
    then have "restart_index it + 1 = num_restarts it" by simp
    with lt show False by simp
  qed
  then have "unat (?w - 1) < unat ?w"
    by (rule unat_pred_less)
  moreover have "num_restarts it - 1 - (restart_index it + 1) = ?w - 1" by simp
  ultimately show "(it\<lparr>restart_index := restart_index it + 1\<rparr>, it)
        \<in> measure (\<lambda>it. unat (num_restarts it - 1 - restart_index it))"
    by simp
qed

declare ParseNextKey_restart.simps [simp del]

lemma ParseNextKey_restart_result:
  "\<exists>ri. ParseNextKey_restart it = Inr (it\<lparr>restart_index := ri\<rparr>)
        \<and> (restart_index it < num_restarts it \<longrightarrow> ri < num_restarts it)"
proof (induction it rule: ParseNextKey_restart.induct)
  case (1 it)
  show ?case
  proof (cases "restart_index it + 1 < num_restarts it")
    case False
    then have "ParseNextKey_restart it = Inr it"
      by (subst ParseNextKey_restart.simps) simp
    then show ?thesis by (intro exI[of _ "restart_index it"]) simp
  next
    case True
    let ?r = "DecodeFixed32 (data it) (unat (restarts it) + unat (restart_index it + 1) * 4)"
    have g: "GetRestartPoint it (restart_index it + 1) = Inr ?r"
      using True by (simp add: GetRestartPoint_def)
    show ?thesis
    proof (cases "?r < current it")
      case False
      with True g have "ParseNextKey_restart it = Inr it"
        by (subst ParseNextKey_restart.simps) simp
      then show ?thesis by (intro exI[of _ "restart_index it"]) simp
    next
      case lt: True
      from "1.IH"[OF True g lt] obtain ri where
        ri: "ParseNextKey_restart (it\<lparr>restart_index := restart_index it + 1\<rparr>)
              = Inr (it\<lparr>restart_index := ri\<rparr>)"
        and b: "restart_index it + 1 < num_restarts it \<longrightarrow> ri < num_restarts it"
        by auto
      from True g lt ri have "ParseNextKey_restart it = Inr (it\<lparr>restart_index := ri\<rparr>)"
        by (subst ParseNextKey_restart.simps) simp
      with b True show ?thesis by auto
    qed
  qed
qed

text \<open>\<^verbatim>\<open>ParseNextKey\<close> returns the iterator and the \<^verbatim>\<open>bool\<close> result.\<close>

definition ParseNextKey :: "iter \<Rightarrow> fault + (iter \<times> bool)" where
  "ParseNextKey it0 =
     (case NextEntryOffset it0 of
        Inl f \<Rightarrow> Inl f
      | Inr off \<Rightarrow>
          (let it = it0\<lparr>current := off\<rparr>;
               p = unat (current it);
               limit = unat (restarts it)
           in if p \<ge> limit
              then Inr (it\<lparr>current := restarts it, restart_index := num_restarts it\<rparr>, False)
              else
                (case DecodeEntry (data it) p limit of
                   None \<Rightarrow> Inr (CorruptionError it, False)
                 | Some (q, shared, non_shared, value_length) \<Rightarrow>
                     if length (key it) < unat shared then Inr (CorruptionError it, False)
                     else
                       (case read_bytes (data it) q (unat non_shared) of
                          Inl f \<Rightarrow> Inl f
                        | Inr delta \<Rightarrow>
                            (case ParseNextKey_restart
                                    (it\<lparr>key := take (unat shared) (key it) @ delta,
                                        val := Slice (q + unat non_shared) (unat value_length)\<rparr>) of
                               Inl f \<Rightarrow> Inl f
                             | Inr it' \<Rightarrow> Inr (it', True))))))"

text \<open>The bytes of the entry region behind the end of the current value: the measure
  of every loop over \<^verbatim>\<open>ParseNextKey\<close>.\<close>

definition remaining :: "iter \<Rightarrow> nat" where
  "remaining it =
     (case val it of
        Slice off len \<Rightarrow> unat (restarts it) - unat (of_nat (off + len) :: u32)
      | EmptySlice \<Rightarrow> 0)"

lemma ParseNextKey_True:
  assumes "ParseNextKey it = Inr (it', True)"
  shows "\<exists>off len q sh ns vl ri.
           val it = Slice off len
         \<and> unat (of_nat (off + len) :: u32) < unat (restarts it)
         \<and> DecodeEntry (data it) (unat (of_nat (off + len) :: u32)) (unat (restarts it))
             = Some (q, sh, ns, vl)
         \<and> unat sh \<le> length (key it)
         \<and> q + unat ns \<le> length (data it)
         \<and> it' = it\<lparr>current := of_nat (off + len),
                      key := take (unat sh) (key it) @ take (unat ns) (drop q (data it)),
                      val := Slice (q + unat ns) (unat vl),
                      restart_index := ri\<rparr>"
proof -
  from assms obtain off len where v: "val it = Slice off len"
    by (cases "val it") (auto simp: ParseNextKey_def NextEntryOffset_def)
  let ?c = "of_nat (off + len) :: u32"
  from assms v have lt: "unat ?c < unat (restarts it)"
    by (auto simp: ParseNextKey_def NextEntryOffset_def Let_def split: if_splits)
  from assms v lt obtain q sh ns vl where
    d: "DecodeEntry (data it) (unat ?c) (unat (restarts it)) = Some (q, sh, ns, vl)"
    by (auto simp: ParseNextKey_def NextEntryOffset_def Let_def split: option.splits)
  from assms v lt d have k: "unat sh \<le> length (key it)"
    by (auto simp: ParseNextKey_def NextEntryOffset_def Let_def split: if_splits)
  from assms v lt d k have r: "q + unat ns \<le> length (data it)"
    by (auto simp: ParseNextKey_def NextEntryOffset_def Let_def read_bytes_def split: if_splits)
  let ?it1 = "it\<lparr>current := ?c, key := take (unat sh) (key it) @ take (unat ns) (drop q (data it)),
                  val := Slice (q + unat ns) (unat vl)\<rparr>"
  from assms v lt d k r have "ParseNextKey_restart ?it1 = Inr it'"
    by (auto simp: ParseNextKey_def NextEntryOffset_def Let_def read_bytes_def
        split: if_splits sum.splits)
  with ParseNextKey_restart_result[of ?it1] obtain ri where "it' = ?it1\<lparr>restart_index := ri\<rparr>"
    by auto
  with v lt d k r show ?thesis by auto
qed

lemma ParseNextKey_remaining:
  assumes "ParseNextKey it = Inr (it', True)"
  shows "remaining it' < remaining it"
proof -
  from ParseNextKey_True[OF assms] obtain off len q sh ns vl ri where
    v: "val it = Slice off len"
    and lt: "unat (of_nat (off + len) :: u32) < unat (restarts it)"
    and d: "DecodeEntry (data it) (unat (of_nat (off + len) :: u32)) (unat (restarts it))
             = Some (q, sh, ns, vl)"
    and it': "it' = it\<lparr>current := of_nat (off + len),
                      key := take (unat sh) (key it) @ take (unat ns) (drop q (data it)),
                      val := Slice (q + unat ns) (unat vl),
                      restart_index := ri\<rparr>"
    by blast
  have lim: "unat (restarts it) < 2 ^ 32"
    using unsigned_less[of "restarts it", where 'a=nat] by simp
  note D = DecodeEntry_Some[OF d]
  note N = next_offset_after[OF D(3) lim D(4)]
  have "remaining it' = unat (restarts it) - (q + unat (ns + vl))"
    using it' N(1) by (simp add: remaining_def)
  moreover have "remaining it = unat (restarts it) - unat (of_nat (off + len) :: u32)"
    using v by (simp add: remaining_def)
  ultimately show ?thesis using lt D(2) N(2) by simp
qed

definition Next :: "iter \<Rightarrow> fault + iter" where
  "Next it =
     (if Valid it
      then (case ParseNextKey it of Inl f \<Rightarrow> Inl f | Inr (it', ok) \<Rightarrow> Inr it')
      else Inl AssertFailed)"

text \<open>
  The loop \<^verbatim>\<open>while (ParseNextKey() && NextEntryOffset() < bound)\<close> with an empty body; it
  is the loop of \<^verbatim>\<open>SeekToLast\<close> (the bound is \<^verbatim>\<open>restarts_\<close>) and the
  \<^verbatim>\<open>do { } while (...)\<close> of \<^verbatim>\<open>Prev\<close> (the bound is \<^verbatim>\<open>original\<close>).
\<close>

function ParseNextKey_until :: "u32 \<Rightarrow> iter \<Rightarrow> fault + iter" where
  "ParseNextKey_until bound it =
     (case ParseNextKey it of
        Inl f \<Rightarrow> Inl f
      | Inr (it', ok) \<Rightarrow>
          if ok then
            (case NextEntryOffset it' of
               Inl f \<Rightarrow> Inl f
             | Inr n \<Rightarrow> if n < bound then ParseNextKey_until bound it' else Inr it')
          else Inr it')"
  by pat_completeness auto
termination
  by (relation "measure (\<lambda>(bound, it). remaining it)") (auto simp: ParseNextKey_remaining)

declare ParseNextKey_until.simps [simp del]

function Seek_linear :: "byte list \<Rightarrow> iter \<Rightarrow> fault + iter" where
  "Seek_linear target it =
     (case ParseNextKey it of
        Inl f \<Rightarrow> Inl f
      | Inr (it', ok) \<Rightarrow>
          if \<not> ok then Inr it'
          else if Compare it' (key it') target \<ge> 0 then Inr it'
          else Seek_linear target it')"
  by pat_completeness auto
termination
  by (relation "measure (\<lambda>(target, it). remaining it)") (auto simp: ParseNextKey_remaining)

declare Seek_linear.simps [simp del]

function Prev_scan :: "u32 \<Rightarrow> iter \<Rightarrow> fault + (iter \<times> bool)" where
  "Prev_scan original it =
     (case GetRestartPoint it (restart_index it) of
        Inl f \<Rightarrow> Inl f
      | Inr r \<Rightarrow>
          if r \<ge> original then
            (if restart_index it = 0
             then Inr (it\<lparr>current := restarts it, restart_index := num_restarts it\<rparr>, False)
             else Prev_scan original (it\<lparr>restart_index := restart_index it - 1\<rparr>))
          else Inr (it, True))"
  by pat_completeness auto
termination
  by (relation "measure (\<lambda>(original, it). unat (restart_index it))")
     (auto simp: unat_pred_less)

declare Prev_scan.simps [simp del]

text \<open>\<^verbatim>\<open>Seek_search\<close> is the binary search of \<^verbatim>\<open>Seek\<close>: \<open>None\<close> when the loop does not
  return (\<^verbatim>\<open>left + right + 1\<close> wraps for more than \<open>2^31\<close> restart points),
  \<open>Some (Inr None)\<close> when it left through \<^verbatim>\<open>CorruptionError(); return;\<close>, and
  \<open>Some (Inr (Some left))\<close> when the window collapsed. The key at the midpoint is not
  copied: \<^verbatim>\<open>Slice mid_key(key_ptr, non_shared)\<close> goes to the comparator as it is.\<close>

partial_function (option) Seek_search :: "byte list \<Rightarrow> iter \<Rightarrow> u32 \<Rightarrow> u32 \<Rightarrow> (fault + u32 option) option" where
  "Seek_search target it left right =
     (if left < right then
        (case GetRestartPoint it ((left + right + 1) div 2) of
           Inl f \<Rightarrow> Some (Inl f)
         | Inr region_offset \<Rightarrow>
             (case DecodeEntry (data it) (unat region_offset) (unat (restarts it)) of
                None \<Rightarrow> Some (Inr None)
              | Some (key_ptr, shared, non_shared, value_length) \<Rightarrow>
                  if shared \<noteq> 0 then Some (Inr None)
                  else
                    (case Compare_slice it key_ptr (unat non_shared) target of
                       Inl f \<Rightarrow> Some (Inl f)
                     | Inr c \<Rightarrow>
                         if c < 0
                         then Seek_search target it ((left + right + 1) div 2) right
                         else Seek_search target it left ((left + right + 1) div 2 - 1))))
      else Some (Inr (Some left)))"

declare Seek_search.simps [code]

definition Prev :: "iter \<Rightarrow> fault + iter" where
  "Prev it =
     (if Valid it then
        (case Prev_scan (current it) it of
           Inl f \<Rightarrow> Inl f
         | Inr (it1, found) \<Rightarrow>
             if \<not> found then Inr it1
             else
               (case SeekToRestartPoint (restart_index it1) it1 of
                  Inl f \<Rightarrow> Inl f
                | Inr it2 \<Rightarrow> ParseNextKey_until (current it) it2))
      else Inl AssertFailed)"

definition Seek :: "byte list \<Rightarrow> iter \<Rightarrow> (fault + iter) option" where
  "Seek target it =
     (case Seek_search target it 0 (num_restarts it - 1) of
        None \<Rightarrow> None
      | Some (Inl f) \<Rightarrow> Some (Inl f)
      | Some (Inr None) \<Rightarrow> Some (Inr (CorruptionError it))
      | Some (Inr (Some left)) \<Rightarrow>
          (case SeekToRestartPoint left it of
             Inl f \<Rightarrow> Some (Inl f)
           | Inr it1 \<Rightarrow> Some (Seek_linear target it1)))"

definition SeekToFirst :: "iter \<Rightarrow> fault + iter" where
  "SeekToFirst it =
     (case SeekToRestartPoint 0 it of
        Inl f \<Rightarrow> Inl f
      | Inr it1 \<Rightarrow> (case ParseNextKey it1 of Inl f \<Rightarrow> Inl f | Inr (it2, ok) \<Rightarrow> Inr it2))"

definition SeekToLast :: "iter \<Rightarrow> fault + iter" where
  "SeekToLast it =
     (case SeekToRestartPoint (num_restarts it - 1) it of
        Inl f \<Rightarrow> Inl f
      | Inr it1 \<Rightarrow> ParseNextKey_until (restarts it1) it1)"

text \<open>A caller's navigation calls, one after the other; a fault ends the run.\<close>

datatype nav = DoNext | DoPrev | DoSeek "byte list" | DoSeekToFirst | DoSeekToLast

fun navigate :: "nav \<Rightarrow> iter \<Rightarrow> (fault + iter) option" where
  "navigate DoNext it = Some (Next it)"
| "navigate DoPrev it = Some (Prev it)"
| "navigate (DoSeek target) it = Seek target it"
| "navigate DoSeekToFirst it = Some (SeekToFirst it)"
| "navigate DoSeekToLast it = Some (SeekToLast it)"

fun navigate_all :: "nav list \<Rightarrow> iter \<Rightarrow> (fault + iter) option" where
  "navigate_all [] it = Some (Inr it)"
| "navigate_all (n # ns) it =
     (case navigate n it of
        None \<Rightarrow> None
      | Some (Inl f) \<Rightarrow> Some (Inl f)
      | Some (Inr it') \<Rightarrow> navigate_all ns it')"

section \<open>Block::NewIterator\<close>

text \<open>Modelled from the spec: \<^verbatim>\<open>NewErrorIterator\<close> and \<^verbatim>\<open>NewEmptyIterator\<close>
  (table/iterator.cc) are not among the sources. The spec: the error iterator
  "immediately reports a corruption error and nothing else (it is never positioned at a
  valid entry)", the empty iterator is "always empty", "every navigation call leaves it
  invalid, with no error"; the three are "variants of one capability set", a "tagged
  variant"; calling \<^verbatim>\<open>next\<close> (or \<^verbatim>\<open>prev\<close>) on an invalid cursor "is a precondition
  violation".\<close>

datatype iterator = ErrorIterator status | EmptyIterator | BlockIterator iter

definition NewErrorIterator :: "status \<Rightarrow> iterator" where
  "NewErrorIterator s = ErrorIterator s"

definition NewEmptyIterator :: iterator where
  "NewEmptyIterator = EmptyIterator"

fun iterator_valid :: "iterator \<Rightarrow> bool" where
  "iterator_valid (ErrorIterator s) = False"
| "iterator_valid EmptyIterator = False"
| "iterator_valid (BlockIterator it) = Valid it"

fun iterator_status :: "iterator \<Rightarrow> status" where
  "iterator_status (ErrorIterator s) = s"
| "iterator_status EmptyIterator = OK"
| "iterator_status (BlockIterator it) = status_of it"

fun iterator_navigate :: "nav \<Rightarrow> iterator \<Rightarrow> (fault + iterator) option" where
  "iterator_navigate n (BlockIterator it) =
     (case navigate n it of
        None \<Rightarrow> None
      | Some (Inl f) \<Rightarrow> Some (Inl f)
      | Some (Inr it') \<Rightarrow> Some (Inr (BlockIterator it')))"
| "iterator_navigate DoNext i = Some (Inl AssertFailed)"
| "iterator_navigate DoPrev i = Some (Inl AssertFailed)"
| "iterator_navigate n i = Some (Inr i)"

fun iterator_navigate_all :: "nav list \<Rightarrow> iterator \<Rightarrow> (fault + iterator) option" where
  "iterator_navigate_all [] i = Some (Inr i)"
| "iterator_navigate_all (n # ns) i =
     (case iterator_navigate n i of
        None \<Rightarrow> None
      | Some (Inl f) \<Rightarrow> Some (Inl f)
      | Some (Inr i') \<Rightarrow> iterator_navigate_all ns i')"

definition NewIterator :: "block \<Rightarrow> Comparator \<Rightarrow> fault + iterator" where
  "NewIterator b cmp =
     (if block_size b < 4 then Inr (NewErrorIterator (Corruption ''bad block contents''))
      else
        (case NumRestarts b of
           Inl f \<Rightarrow> Inl f
         | Inr n \<Rightarrow>
             if n = 0 then Inr NewEmptyIterator
             else
               (case restart_offset b of
                  None \<Rightarrow> Inl Undefined
                | Some r \<Rightarrow>
                    (case Iter cmp (block_data b) r n of
                       Inl f \<Rightarrow> Inl f
                     | Inr it \<Rightarrow> Inr (BlockIterator it)))))"

text \<open>The \<open>j\<close>-th offset of the restart array, as \<^verbatim>\<open>GetRestartPoint\<close> reads it.\<close>

definition restart_point :: "iter \<Rightarrow> u32 \<Rightarrow> u32" where
  "restart_point it j = DecodeFixed32 (data it) (unat (restarts it) + unat j * 4)"

lemma restart_point_simps [simp]:
  "restart_point (it\<lparr>restart_index := ri\<rparr>) j = restart_point it j"
  "restart_point (it\<lparr>current := c\<rparr>) j = restart_point it j"
  "restart_point (it\<lparr>key := k\<rparr>) j = restart_point it j"
  "restart_point (it\<lparr>val := v\<rparr>) j = restart_point it j"
  "restart_point (it\<lparr>status := s\<rparr>) j = restart_point it j"
  by (simp_all add: restart_point_def)

lemma GetRestartPoint_eq:
  "j < num_restarts it \<Longrightarrow> GetRestartPoint it j = Inr (restart_point it j)"
  by (simp add: GetRestartPoint_def restart_point_def)

lemma Prev_scan_none:
  "restart_index it < num_restarts it \<Longrightarrow>
   (\<forall>j \<le> restart_index it. original \<le> restart_point it j) \<Longrightarrow>
   Prev_scan original it
     = Inr (it\<lparr>current := restarts it, restart_index := num_restarts it\<rparr>, False)"
proof (induction original it rule: Prev_scan.induct)
  case (1 original it)
  from "1.prems" have g: "GetRestartPoint it (restart_index it) = Inr (restart_point it (restart_index it))"
    by (simp add: GetRestartPoint_eq)
  from "1.prems" have ge: "original \<le> restart_point it (restart_index it)" by simp
  show ?case
  proof (cases "restart_index it = 0")
    case True
    with g ge show ?thesis by (subst Prev_scan.simps) simp
  next
    case False
    let ?it' = "it\<lparr>restart_index := restart_index it - 1\<rparr>"
    from False have lt: "restart_index it - 1 < restart_index it"
      by (simp add: word_less_nat_alt unat_pred_less)
    with "1.prems"(1) have a: "restart_index ?it' < num_restarts ?it'" by simp
    have b: "\<forall>j \<le> restart_index ?it'. original \<le> restart_point ?it' j"
      using "1.prems"(2) lt by auto
    from "1.IH"[OF g ge False a b] g ge False show ?thesis
      by (subst Prev_scan.simps) simp
  qed
qed

section \<open>A caller that walks the block\<close>

text \<open>
  A caller that walks the block: \<^verbatim>\<open>for (it->SeekToFirst(); it->Valid(); it->Next())\<close> and
  \<^verbatim>\<open>for (it->SeekToLast(); it->Valid(); it->Prev())\<close>, collecting \<^verbatim>\<open>key()\<close> and the bytes
  of \<^verbatim>\<open>value()\<close> at each stop.
\<close>

definition entry_of :: "iter \<Rightarrow> fault + (byte list \<times> byte list)" where
  "entry_of it =
     (case key_of it of
        Inl f \<Rightarrow> Inl f
      | Inr k \<Rightarrow>
          (case value_of it of
             Inl f \<Rightarrow> Inl f
           | Inr EmptySlice \<Rightarrow> Inr (k, [])
           | Inr (Slice off len) \<Rightarrow>
               (case read_bytes (data it) off len of
                  Inl f \<Rightarrow> Inl f
                | Inr v \<Rightarrow> Inr (k, v))))"

lemma ParseNextKey_False_invalid:
  assumes "ParseNextKey it = Inr (it', False)"
  shows "\<not> Valid it'"
proof -
  from assms obtain off len where v: "val it = Slice off len"
    by (cases "val it") (auto simp: ParseNextKey_def NextEntryOffset_def)
  let ?it = "it\<lparr>current := of_nat (off + len)\<rparr>"
  have "it' = ?it\<lparr>current := restarts it, restart_index := num_restarts it\<rparr>
        \<or> it' = CorruptionError ?it"
    using assms v
    by (auto simp: ParseNextKey_def NextEntryOffset_def Let_def
        split: if_splits option.splits sum.splits)
  then show ?thesis by (auto simp: CorruptionError_def Valid_def)
qed

lemma ParseNextKey_True_fields:
  assumes "ParseNextKey it = Inr (it', True)"
  shows "restarts it' = restarts it" and "NextEntryOffset it = Inr (current it')"
  using ParseNextKey_True[OF assms] by (auto simp: NextEntryOffset_def)

lemma Next_measure:
  assumes "Valid it" and "Next it = Inr it'"
  shows "(if Valid it' then remaining it' + 1 else 0) < (if Valid it then remaining it + 1 else 0)"
proof -
  from assms obtain ok where p: "ParseNextKey it = Inr (it', ok)"
    by (auto simp: Next_def split: sum.splits)
  show ?thesis
  proof (cases ok)
    case True
    with p ParseNextKey_remaining[of it it'] assms(1) show ?thesis by simp
  next
    case False
    with p ParseNextKey_False_invalid[of it it'] assms(1) show ?thesis by simp
  qed
qed

function forward_rest :: "iter \<Rightarrow> fault + (byte list \<times> byte list) list" where
  "forward_rest it =
     (if Valid it then
        (case entry_of it of
           Inl f \<Rightarrow> Inl f
         | Inr kv \<Rightarrow>
             (case Next it of
                Inl f \<Rightarrow> Inl f
              | Inr it' \<Rightarrow>
                  (case forward_rest it' of Inl f \<Rightarrow> Inl f | Inr kvs \<Rightarrow> Inr (kv # kvs))))
      else Inr [])"
  by pat_completeness auto
termination
  by (relation "measure (\<lambda>it. if Valid it then remaining it + 1 else 0)")
     (use Next_measure in auto)

declare forward_rest.simps [simp del]

definition forward_scan :: "iter \<Rightarrow> fault + (byte list \<times> byte list) list" where
  "forward_scan it =
     (case SeekToFirst it of Inl f \<Rightarrow> Inl f | Inr it1 \<Rightarrow> forward_rest it1)"

text \<open>\<^verbatim>\<open>Prev\<close> moves a valid cursor to a smaller offset, or makes it Invalid.\<close>

lemma ParseNextKey_until_below:
  "NextEntryOffset it = Inr n \<Longrightarrow> n < bound \<Longrightarrow> ParseNextKey_until bound it = Inr it' \<Longrightarrow>
   Valid it' \<Longrightarrow> current it' < bound"
proof (induction bound it arbitrary: n rule: ParseNextKey_until.induct)
  case (1 bound it)
  from "1.prems"(3) obtain it1 ok where p: "ParseNextKey it = Inr (it1, ok)"
    by (subst (asm) ParseNextKey_until.simps) (auto split: sum.splits)
  show ?case
  proof (cases ok)
    case False
    with p "1.prems"(3) have "it' = it1"
      by (subst (asm) ParseNextKey_until.simps) simp
    with False p ParseNextKey_False_invalid[of it it1] "1.prems"(4) show ?thesis by simp
  next
    case True
    with p ParseNextKey_True_fields(2)[of it it1] "1.prems"(1) have c: "current it1 = n" by simp
    from True p "1.prems"(3) obtain n1 where n1: "NextEntryOffset it1 = Inr n1"
      by (subst (asm) ParseNextKey_until.simps) (auto split: sum.splits)
    show ?thesis
    proof (cases "n1 < bound")
      case False
      with True p n1 "1.prems"(3) have "it' = it1"
        by (subst (asm) ParseNextKey_until.simps) simp
      with c "1.prems"(2) show ?thesis by simp
    next
      case lt: True
      with True p n1 "1.prems"(3) have "ParseNextKey_until bound it1 = Inr it'"
        by (subst (asm) ParseNextKey_until.simps) simp
      from "1.IH"[OF p refl True n1 lt n1 lt this "1.prems"(4)] show ?thesis .
    qed
  qed
qed

lemma Prev_scan_found:
  "Prev_scan original it = Inr (it1, True) \<Longrightarrow>
   \<exists>j. it1 = it\<lparr>restart_index := j\<rparr> \<and> j \<le> restart_index it \<and> j < num_restarts it
      \<and> restart_point it j < original"
proof (induction original it rule: Prev_scan.induct)
  case (1 original it)
  from "1.prems" obtain r where g: "GetRestartPoint it (restart_index it) = Inr r"
    by (subst (asm) Prev_scan.simps) (auto split: sum.splits)
  then have lt: "restart_index it < num_restarts it" and r: "r = restart_point it (restart_index it)"
    by (auto simp: GetRestartPoint_def restart_point_def split: if_splits)
  show ?case
  proof (cases "r \<ge> original")
    case False
    with g "1.prems" have "it1 = it" by (subst (asm) Prev_scan.simps) simp
    with False lt r show ?thesis by (intro exI[of _ "restart_index it"]) simp
  next
    case True
    with g "1.prems" have nz: "restart_index it \<noteq> 0"
      by (subst (asm) Prev_scan.simps) (auto split: if_splits)
    with True g "1.prems"
    have "Prev_scan original (it\<lparr>restart_index := restart_index it - 1\<rparr>) = Inr (it1, True)"
      by (subst (asm) Prev_scan.simps) simp
    from "1.IH"[OF g True nz this] obtain j where
      j: "it1 = it\<lparr>restart_index := j\<rparr>" "j \<le> restart_index it - 1" "j < num_restarts it"
        "restart_point it j < original"
      by auto
    from nz have "restart_index it - 1 \<le> restart_index it"
      by (simp add: word_le_nat_alt unat_minus_one unat_gt_0)
    with j show ?thesis by (intro exI[of _ j]) simp
  qed
qed

lemma Prev_scan_not_found:
  "Prev_scan original it = Inr (it1, False) \<Longrightarrow> \<not> Valid it1"
proof (induction original it rule: Prev_scan.induct)
  case (1 original it)
  from "1.prems" obtain r where g: "GetRestartPoint it (restart_index it) = Inr r"
    by (subst (asm) Prev_scan.simps) (auto split: sum.splits)
  show ?case
  proof (cases "r \<ge> original \<and> restart_index it \<noteq> 0")
    case True
    with g "1.prems"
    have "Prev_scan original (it\<lparr>restart_index := restart_index it - 1\<rparr>) = Inr (it1, False)"
      by (subst (asm) Prev_scan.simps) simp
    from "1.IH"[OF g _ _ this] True show ?thesis by simp
  next
    case False
    with g "1.prems" show ?thesis
      by (subst (asm) Prev_scan.simps) (auto simp: Valid_def split: if_splits)
  qed
qed

lemma Prev_measure:
  assumes "Valid it" and "Prev it = Inr it'"
  shows "(if Valid it' then unat (current it') + 1 else 0)
         < (if Valid it then unat (current it) + 1 else 0)"
proof (cases "Valid it'")
  case False
  with assms(1) show ?thesis by simp
next
  case True
  from assms obtain it1 found where s: "Prev_scan (current it) it = Inr (it1, found)"
    by (auto simp: Prev_def split: sum.splits)
  have f: found
  proof (rule ccontr)
    assume "\<not> found"
    with s assms have "it' = it1" by (simp add: Prev_def)
    moreover from s \<open>\<not> found\<close> have "\<not> Valid it1"
      by (auto dest: Prev_scan_not_found)
    ultimately show False using True by simp
  qed
  from Prev_scan_found[of "current it" it it1] s f obtain j where
    j: "it1 = it\<lparr>restart_index := j\<rparr>" "j < num_restarts it" "restart_point it j < current it"
    by auto
  let ?it2 = "it\<lparr>key := [], restart_index := j, val := Slice (unat (restart_point it j)) 0\<rparr>"
  from j have r: "SeekToRestartPoint (restart_index it1) it1 = Inr ?it2"
    by (simp add: SeekToRestartPoint_def GetRestartPoint_eq)
  with s f assms have u: "ParseNextKey_until (current it) ?it2 = Inr it'"
    by (simp add: Prev_def)
  have n: "NextEntryOffset ?it2 = Inr (restart_point it j)"
    by (simp add: NextEntryOffset_def)
  from ParseNextKey_until_below[OF n j(3) u True] assms(1) True show ?thesis
    by (simp add: word_less_nat_alt)
qed

function backward_rest :: "iter \<Rightarrow> fault + (byte list \<times> byte list) list" where
  "backward_rest it =
     (if Valid it then
        (case entry_of it of
           Inl f \<Rightarrow> Inl f
         | Inr kv \<Rightarrow>
             (case Prev it of
                Inl f \<Rightarrow> Inl f
              | Inr it' \<Rightarrow>
                  (case backward_rest it' of Inl f \<Rightarrow> Inl f | Inr kvs \<Rightarrow> Inr (kv # kvs))))
      else Inr [])"
  by pat_completeness auto
termination
  by (relation "measure (\<lambda>it. if Valid it then unat (current it) + 1 else 0)")
     (use Prev_measure in auto)

declare backward_rest.simps [simp del]

definition backward_scan :: "iter \<Rightarrow> fault + (byte list \<times> byte list) list" where
  "backward_scan it =
     (case SeekToLast it of Inl f \<Rightarrow> Inl f | Inr it1 \<Rightarrow> backward_rest it1)"

section \<open>Example blocks\<close>

text \<open>The byte-wise lexicographic order on keys, with the sign convention of a
  \<^verbatim>\<open>Comparator\<close>: negative, zero, positive.\<close>

fun bytewise :: "byte list \<Rightarrow> byte list \<Rightarrow> int" where
  "bytewise [] [] = 0"
| "bytewise [] (y # ys) = -1"
| "bytewise (x # xs) [] = 1"
| "bytewise (x # xs) (y # ys) = (if x < y then -1 else if y < x then 1 else bytewise xs ys)"

text \<open>The same order on a span of \<open>n\<close> bytes of which only the bytes \<open>a\<close> are in the
  buffer, as \<^verbatim>\<open>Slice::compare\<close> computes it: \<^verbatim>\<open>memcmp\<close> on the first \<open>min n (length b)\<close>
  bytes, then the lengths. It reads behind the buffer when \<open>a\<close> has fewer bytes than
  that.\<close>

definition bytewise_beyond :: "byte list \<Rightarrow> nat \<Rightarrow> byte list \<Rightarrow> fault + int" where
  "bytewise_beyond a n b =
     (let min_len = min n (length b) in
      if length a < min_len then Inl Undefined
      else
        (let r = bytewise (take min_len a) (take min_len b) in
         if r \<noteq> 0 then Inr r
         else if n < length b then Inr (-1)
         else if length b < n then Inr 1
         else Inr 0))"

definition BytewiseComparator :: Comparator where
  "BytewiseComparator = \<lparr>compare = bytewise, compare_beyond = bytewise_beyond\<rparr>"

text \<open>The example of the spec: \<^verbatim>\<open>"abc" -> "v1"\<close>, then \<^verbatim>\<open>"abd" -> "v2"\<close> with two shared
  bytes, one restart point. The entries end at offset 14.\<close>

definition example_block :: "byte list" where
  "example_block =
     [0, 3, 2, 0x61, 0x62, 0x63, 0x76, 0x31,
      2, 1, 2, 0x64, 0x76, 0x32,
      0, 0, 0, 0,
      1, 0, 0, 0]"

definition example_iter :: iter where
  "example_iter =
     \<lparr>comparator = BytewiseComparator, data = example_block, restarts = 14, num_restarts = 1,
      current = 14, restart_index = 1, key = [], val = EmptySlice, status = OK\<rparr>"

text \<open>The cursor of the example on its first entry.\<close>

definition example_at_first :: iter where
  "example_at_first =
     \<lparr>comparator = BytewiseComparator, data = example_block, restarts = 14, num_restarts = 1,
      current = 0, restart_index = 0, key = [0x61, 0x62, 0x63], val = Slice 6 2, status = OK\<rparr>"

text \<open>Four entries \<^verbatim>\<open>"aa" -> "1"\<close>, \<^verbatim>\<open>"ab" -> "2"\<close>, \<^verbatim>\<open>"ba" -> "3"\<close>, \<^verbatim>\<open>"bb" -> "4"\<close> at
  offsets 0, 6, 11, 17 with restart points at 0 and 11. The entries end at offset 22.\<close>

definition two_run_block :: "byte list" where
  "two_run_block =
     [0, 2, 1, 0x61, 0x61, 0x31,
      1, 1, 1, 0x62, 0x32,
      0, 2, 1, 0x62, 0x61, 0x33,
      1, 1, 1, 0x62, 0x34,
      0, 0, 0, 0,
      11, 0, 0, 0,
      2, 0, 0, 0]"

definition two_run_iter :: iter where
  "two_run_iter =
     \<lparr>comparator = BytewiseComparator, data = two_run_block, restarts = 22, num_restarts = 2,
      current = 22, restart_index = 2, key = [], val = EmptySlice, status = OK\<rparr>"

text \<open>A first entry \<^verbatim>\<open>"a" -> "1"\<close> and a second entry that claims five shared bytes.\<close>

definition bad_shared_block :: "byte list" where
  "bad_shared_block =
     [0, 1, 1, 0x61, 0x31,
      5, 1, 1, 0x62, 0x32,
      0, 0, 0, 0,
      1, 0, 0, 0]"

definition bad_shared_iter :: iter where
  "bad_shared_iter =
     \<lparr>comparator = BytewiseComparator, data = bad_shared_block, restarts = 10, num_restarts = 1,
      current = 10, restart_index = 1, key = [], val = EmptySlice, status = OK\<rparr>"

text \<open>The cursor on that block: on its first entry, after \<^verbatim>\<open>Next\<close> has met the second
  entry, and after a second \<^verbatim>\<open>SeekToFirst\<close>.\<close>

definition bad_shared_at_first :: iter where
  "bad_shared_at_first =
     \<lparr>comparator = BytewiseComparator, data = bad_shared_block, restarts = 10, num_restarts = 1,
      current = 0, restart_index = 0, key = [0x61], val = Slice 4 1, status = OK\<rparr>"

definition bad_shared_failed :: iter where
  "bad_shared_failed =
     \<lparr>comparator = BytewiseComparator, data = bad_shared_block, restarts = 10, num_restarts = 1,
      current = 10, restart_index = 1, key = [], val = EmptySlice,
      status = Corruption ''bad entry in block''\<rparr>"

definition bad_shared_again :: iter where
  "bad_shared_again =
     \<lparr>comparator = BytewiseComparator, data = bad_shared_block, restarts = 10, num_restarts = 1,
      current = 0, restart_index = 0, key = [0x61], val = Slice 4 1,
      status = Corruption ''bad entry in block''\<rparr>"

text \<open>One entry whose lengths are varints: \<open>shared = 0\<close>, \<open>non_shared = 4294967295\<close>
  (bytes \<^verbatim>\<open>FF FF FF FF 0F\<close>), \<open>value_length = 1\<close>. The entries end at offset 7, right
  behind the three lengths.\<close>

definition wrapped_block :: "byte list" where
  "wrapped_block =
     [0, 0xFF, 0xFF, 0xFF, 0xFF, 0x0F, 1,
      0, 0, 0, 0,
      1, 0, 0, 0]"

definition wrapped_iter :: iter where
  "wrapped_iter =
     \<lparr>comparator = BytewiseComparator, data = wrapped_block, restarts = 7, num_restarts = 1,
      current = 7, restart_index = 1, key = [], val = EmptySlice, status = OK\<rparr>"

text \<open>The cursor on that block at its restart point, as \<^verbatim>\<open>SeekToRestartPoint(0)\<close> leaves it.\<close>

definition wrapped_at_restart :: iter where
  "wrapped_at_restart =
     \<lparr>comparator = BytewiseComparator, data = wrapped_block, restarts = 7, num_restarts = 1,
      current = 7, restart_index = 0, key = [], val = Slice 0 0, status = OK\<rparr>"

text \<open>The block \<open>two_run_block\<close> with its second restart point moved to offset 6, an
  entry with one shared byte.\<close>

definition bad_restart_block :: "byte list" where
  "bad_restart_block =
     [0, 2, 1, 0x61, 0x61, 0x31,
      1, 1, 1, 0x62, 0x32,
      0, 2, 1, 0x62, 0x61, 0x33,
      1, 1, 1, 0x62, 0x34,
      0, 0, 0, 0,
      6, 0, 0, 0,
      2, 0, 0, 0]"

definition bad_restart_iter :: iter where
  "bad_restart_iter =
     \<lparr>comparator = BytewiseComparator, data = bad_restart_block, restarts = 22, num_restarts = 2,
      current = 22, restart_index = 2, key = [], val = EmptySlice, status = OK\<rparr>"

text \<open>A first entry \<^verbatim>\<open>"a" -> "1"\<close>, a second entry that claims five shared bytes, and
  at offset 10 the entry of \<open>wrapped_block\<close>; restart points at 0 and 10. The entries end
  at offset 17.\<close>

definition seek_again_block :: "byte list" where
  "seek_again_block =
     [0, 1, 1, 0x61, 0x31,
      5, 1, 1, 0x62, 0x32,
      0, 0xFF, 0xFF, 0xFF, 0xFF, 0x0F, 1,
      0, 0, 0, 0,
      10, 0, 0, 0,
      2, 0, 0, 0]"

definition seek_again_iter :: iter where
  "seek_again_iter =
     \<lparr>comparator = BytewiseComparator, data = seek_again_block, restarts = 17, num_restarts = 2,
      current = 17, restart_index = 2, key = [], val = EmptySlice, status = OK\<rparr>"

text \<open>The cursor on that block after \<^verbatim>\<open>SeekToFirst\<close> and a \<^verbatim>\<open>Next\<close> that has met the second
  entry, and after a \<^verbatim>\<open>Seek("")\<close> that follows.\<close>

definition seek_again_failed :: iter where
  "seek_again_failed =
     \<lparr>comparator = BytewiseComparator, data = seek_again_block, restarts = 17, num_restarts = 2,
      current = 17, restart_index = 2, key = [], val = EmptySlice,
      status = Corruption ''bad entry in block''\<rparr>"

definition seek_again_valid :: iter where
  "seek_again_valid =
     \<lparr>comparator = BytewiseComparator, data = seek_again_block, restarts = 17, num_restarts = 2,
      current = 0, restart_index = 0, key = [0x61], val = Slice 4 1,
      status = Corruption ''bad entry in block''\<rparr>"

text \<open>The entries \<^verbatim>\<open>"a" -> "1"\<close>, then \<^verbatim>\<open>"ab" -> "2"\<close> with one shared byte, then the entry
  of \<open>wrapped_block\<close>, with the four restart points 0, 5, 10, 10: the second one is an
  entry with a shared byte.\<close>

definition past_wrapped_block :: "byte list" where
  "past_wrapped_block =
     [0, 1, 1, 0x61, 0x31,
      1, 1, 1, 0x62, 0x32,
      0, 0xFF, 0xFF, 0xFF, 0xFF, 0x0F, 1,
      0, 0, 0, 0,
      5, 0, 0, 0,
      10, 0, 0, 0,
      10, 0, 0, 0,
      4, 0, 0, 0]"

definition past_wrapped_iter :: iter where
  "past_wrapped_iter =
     \<lparr>comparator = BytewiseComparator, data = past_wrapped_block, restarts = 17, num_restarts = 4,
      current = 17, restart_index = 4, key = [], val = EmptySlice, status = OK\<rparr>"

section \<open>Notions used to state the properties\<close>

text \<open>The windows \<open>[left, right]\<close> that the binary search of \<^verbatim>\<open>Seek(target)\<close> goes through:
  the first one, and the one after each turn of the loop that ends with \<^verbatim>\<open>left = mid\<close> or
  with \<^verbatim>\<open>right = mid - 1\<close>.\<close>

inductive Seek_window :: "byte list \<Rightarrow> iter \<Rightarrow> u32 \<Rightarrow> u32 \<Rightarrow> bool" for target it where
  start: "Seek_window target it 0 (num_restarts it - 1)"
| smaller:
    "Seek_window target it left right \<Longrightarrow> left < right \<Longrightarrow>
     GetRestartPoint it ((left + right + 1) div 2) = Inr region_offset \<Longrightarrow>
     DecodeEntry (data it) (unat region_offset) (unat (restarts it))
       = Some (key_ptr, 0, non_shared, value_length) \<Longrightarrow>
     Compare_slice it key_ptr (unat non_shared) target = Inr c \<Longrightarrow>
     c < 0 \<Longrightarrow>
     Seek_window target it ((left + right + 1) div 2) right"
| not_smaller:
    "Seek_window target it left right \<Longrightarrow> left < right \<Longrightarrow>
     GetRestartPoint it ((left + right + 1) div 2) = Inr region_offset \<Longrightarrow>
     DecodeEntry (data it) (unat region_offset) (unat (restarts it))
       = Some (key_ptr, 0, non_shared, value_length) \<Longrightarrow>
     Compare_slice it key_ptr (unat non_shared) target = Inr c \<Longrightarrow>
     \<not> c < 0 \<Longrightarrow>
     Seek_window target it left ((left + right + 1) div 2 - 1)"

text \<open>What one call does to the status: it leaves it, or it records
  "bad entry in block" and leaves the cursor Invalid.\<close>

definition status_step :: "iter \<Rightarrow> iter \<Rightarrow> bool" where
  "status_step it it' \<longleftrightarrow>
     status it' = status it
     \<or> (status it' = Corruption ''bad entry in block'' \<and> \<not> Valid it')"

section \<open>Well-formed blocks\<close>

text \<open>
  The entries of a block as the layout of the format gives them: entry after entry from
  offset 0 up to the restart array, each decoded by \<^verbatim>\<open>DecodeEntry\<close>, its key the shared
  prefix of the key before it followed by the key delta, its value the bytes behind the
  delta. \<open>None\<close> when an entry does not decode, shares more bytes than the key before it
  has, or has lengths that reach behind the restart array.
\<close>

record entry =
  e_off :: nat
  e_key :: "byte list"
  e_voff :: nat
  e_vlen :: nat

function entries_from :: "byte list \<Rightarrow> nat \<Rightarrow> nat \<Rightarrow> byte list \<Rightarrow> entry list option" where
  "entries_from d limit off prev =
     (if limit \<le> off then (if off = limit then Some [] else None)
      else
        (case DecodeEntry d off limit of
           None \<Rightarrow> None
         | Some (q, shared, non_shared, value_length) \<Rightarrow>
             if length prev < unat shared then None
             else if limit < q + unat non_shared + unat value_length then None
             else
               (case entries_from d limit (q + unat non_shared + unat value_length)
                       (take (unat shared) prev @ take (unat non_shared) (drop q d)) of
                  None \<Rightarrow> None
                | Some es \<Rightarrow>
                    Some (\<lparr>e_off = off,
                           e_key = take (unat shared) prev @ take (unat non_shared) (drop q d),
                           e_voff = q + unat non_shared,
                           e_vlen = unat value_length\<rparr> # es))))"
  by pat_completeness auto
termination
proof (relation "measure (\<lambda>(d, limit, off, prev). limit - off)")
  show "wf (measure (\<lambda>(d, limit, off, prev). limit - off))" by simp
next
  fix d :: "byte list" and limit off :: nat and prev :: "byte list"
    and x2 q y shared ya non_shared value_length
  assume "\<not> limit \<le> off" and d: "DecodeEntry d off limit = Some x2"
    and x: "(q, y) = x2" "(shared, ya) = y" "(non_shared, value_length) = ya"
    and "\<not> limit < q + unat non_shared + unat value_length"
  from d x have "DecodeEntry d off limit = Some (q, shared, non_shared, value_length)" by simp
  from DecodeEntry_Some(2)[OF this] \<open>\<not> limit \<le> off\<close>
  show "((d, limit, q + unat non_shared + unat value_length,
          take (unat shared) prev @ take (unat non_shared) (drop q d)), d, limit, off, prev)
        \<in> measure (\<lambda>(d, limit, off, prev). limit - off)"
    by simp
qed

declare entries_from.simps [simp del]

definition block_entries :: "iter \<Rightarrow> entry list option" where
  "block_entries it = entries_from (data it) (unat (restarts it)) 0 []"

text \<open>A restart point of a block with entries \<open>es\<close> is well-formed when it is the offset of
  one of the entries and that entry shares no byte with the key before it.\<close>

definition restart_entry :: "iter \<Rightarrow> entry list \<Rightarrow> u32 \<Rightarrow> bool" where
  "restart_entry it es j \<longleftrightarrow>
     list_ex (\<lambda>e. e_off e = unat (restart_point it j)) es
     \<and> (case DecodeEntry (data it) (unat (restart_point it j)) (unat (restarts it)) of
          None \<Rightarrow> False
        | Some (q, shared, non_shared, value_length) \<Rightarrow> shared = 0)"

text \<open>
  A well-formed block: the buffer is shorter than \<open>2^32\<close> bytes and ends with the restart
  array and the restart count, as the constructor of \<^verbatim>\<open>Block\<close> finds them; there is at
  least one restart point and the first is offset 0; the entries decode one after the
  other up to the restart array; every restart point is the offset of an entry that
  shares nothing (a block with no entry has the one restart point 0).
\<close>

definition well_formed :: "iter \<Rightarrow> bool" where
  "well_formed it \<longleftrightarrow>
     length (data it) < 2 ^ 32
     \<and> unat (restarts it) + 4 * (unat (num_restarts it) + 1) = length (data it)
     \<and> 0 < num_restarts it
     \<and> restart_point it 0 = 0
     \<and> (case block_entries it of
          None \<Rightarrow> False
        | Some es \<Rightarrow>
            if es = [] then num_restarts it = 1
            else list_all (\<lambda>j. restart_entry it es (of_nat j)) [0..<unat (num_restarts it)])"

text \<open>The keys of the entries are strictly increasing under the comparator of the cursor.\<close>

definition sorted_entries :: "iter \<Rightarrow> entry list \<Rightarrow> bool" where
  "sorted_entries it es \<longleftrightarrow> sorted_wrt (\<lambda>a b. Compare it (e_key a) (e_key b) < 0) es"

text \<open>What the proofs use of a comparator: it is reflexive and \<open><\<close> is transitive.\<close>

definition comparator_ok :: "Comparator \<Rightarrow> bool" where
  "comparator_ok cmp \<longleftrightarrow>
     (\<forall>a. compare cmp a a = 0)
     \<and> (\<forall>a b c. compare cmp a b < 0 \<and> compare cmp b c < 0 \<longrightarrow> compare cmp a c < 0)"

text \<open>The cursor is on entry \<open>e\<close>.\<close>

definition positioned :: "iter \<Rightarrow> entry \<Rightarrow> bool" where
  "positioned it e \<longleftrightarrow>
     current it = of_nat (e_off e) \<and> key it = e_key e \<and> val it = Slice (e_voff e) (e_vlen e)"

text \<open>The cursor stands in front of the entries \<open>es\<close>: the next \<^verbatim>\<open>ParseNextKey\<close> starts at
  the first of them, with the key of the entry before it.\<close>

definition before :: "iter \<Rightarrow> entry list \<Rightarrow> bool" where
  "before it es \<longleftrightarrow>
     (\<exists>vo vl. val it = Slice vo vl
        \<and> entries_from (data it) (unat (restarts it)) (vo + vl) (key it) = Some es)"

text \<open>The key that the binary search reads at restart point \<open>j\<close>.\<close>

definition restart_key :: "iter \<Rightarrow> u32 \<Rightarrow> byte list" where
  "restart_key it j =
     (case DecodeEntry (data it) (unat (restart_point it j)) (unat (restarts it)) of
        None \<Rightarrow> []
      | Some (q, shared, non_shared, value_length) \<Rightarrow> take (unat non_shared) (drop q (data it)))"

text \<open>Two cursors over the same block.\<close>

definition same_block :: "iter \<Rightarrow> iter \<Rightarrow> bool" where
  "same_block c it \<longleftrightarrow>
     data c = data it \<and> restarts c = restarts it \<and> num_restarts c = num_restarts it
     \<and> comparator c = comparator it"

text \<open>The key and the value bytes of an entry of the layout.\<close>

definition entry_kv :: "byte list \<Rightarrow> entry \<Rightarrow> byte list \<times> byte list" where
  "entry_kv d e = (e_key e, take (e_vlen e) (drop (e_voff e) d))"

text \<open>The entries of \<open>two_run_block\<close>, and the cursor on the third of them.\<close>

definition two_run_entries :: "entry list" where
  "two_run_entries =
     [\<lparr>e_off = 0, e_key = [0x61, 0x61], e_voff = 5, e_vlen = 1\<rparr>,
      \<lparr>e_off = 6, e_key = [0x61, 0x62], e_voff = 10, e_vlen = 1\<rparr>,
      \<lparr>e_off = 11, e_key = [0x62, 0x61], e_voff = 16, e_vlen = 1\<rparr>,
      \<lparr>e_off = 17, e_key = [0x62, 0x62], e_voff = 21, e_vlen = 1\<rparr>]"

definition two_run_at_third :: iter where
  "two_run_at_third =
     \<lparr>comparator = BytewiseComparator, data = two_run_block, restarts = 22, num_restarts = 2,
      current = 11, restart_index = 0, key = [0x62, 0x61], val = Slice 16 1, status = OK\<rparr>"

section \<open>Properties\<close>

lemmas eval_defs =
  SeekToFirst_def SeekToLast_def SeekToRestartPoint_def GetRestartPoint_def DecodeFixed32_def
  ParseNextKey_def NextEntryOffset_def Let_def DecodeEntry_def DecodeEntry_lengths_def
  GetVarint32Ptr_def GetVarint32Ptr_loop.simps
  read_bytes_def ParseNextKey_restart.simps Next_def Prev_def Valid_def CorruptionError_def
  status_of_def Compare_def Compare_slice_def BytewiseComparator_def bytewise_beyond_def

lemmas bad_shared_defs =
  bad_shared_iter_def bad_shared_block_def bad_shared_at_first_def bad_shared_failed_def
  bad_shared_again_def

lemmas seek_again_defs =
  seek_again_iter_def seek_again_block_def seek_again_failed_def seek_again_valid_def



subsection \<open>Block construction\<close>





subsection \<open>NewIterator\<close>

lemma iterator_navigate_all_Error:
  "iterator_navigate_all ops (ErrorIterator s) = Some (Inr i) \<Longrightarrow> i = ErrorIterator s"
proof (induction ops)
  case Nil
  then show ?case by simp
next
  case (Cons n ops)
  then show ?case by (cases n) (auto split: option.splits sum.splits)
qed

lemma iterator_navigate_all_Empty:
  "iterator_navigate_all ops EmptyIterator = Some (Inr i) \<Longrightarrow> i = EmptyIterator"
proof (induction ops)
  case Nil
  then show ?case by simp
next
  case (Cons n ops)
  then show ?case by (cases n) (auto split: option.splits sum.splits)
qed

lemma Block_valid_offset:
  assumes "Block contents = Inr b" and "4 \<le> block_size b"
  shows "\<exists>r. restart_offset b = Some r"
  using assms
  by (auto simp: Block_def Let_def NumRestarts_def split: if_splits simp del: of_nat_diff)

text \<open>
  C6. For a constructed block, \<^verbatim>\<open>NewIterator\<close> returns: for an invalid block
  (\<open>size_ < 4\<close>) the error iterator with the status "bad block contents", which after any
  navigation calls is not valid and has that status; for a valid block whose restart count
  is 0 the empty iterator, which after any navigation calls is not valid and has status
  OK; otherwise the cursor \<^verbatim>\<open>Iter(cmp, data_, restart_offset_, num_restarts)\<close>.
\<close>

theorem NewIterator_variants:
  assumes "Block contents = Inr b"
  shows "(block_size b < 4 \<longrightarrow>
            NewIterator b cmp = Inr (ErrorIterator (Corruption ''bad block contents''))
          \<and> (\<forall>ops i. iterator_navigate_all ops (ErrorIterator (Corruption ''bad block contents''))
                        = Some (Inr i)
                \<longrightarrow> \<not> iterator_valid i \<and> iterator_status i = Corruption ''bad block contents''))
       \<and> (4 \<le> block_size b \<and> NumRestarts b = Inr 0 \<longrightarrow>
            NewIterator b cmp = Inr EmptyIterator
          \<and> (\<forall>ops i. iterator_navigate_all ops EmptyIterator = Some (Inr i)
                \<longrightarrow> \<not> iterator_valid i \<and> iterator_status i = OK))
       \<and> (\<forall>n. 4 \<le> block_size b \<and> NumRestarts b = Inr n \<and> n \<noteq> 0 \<longrightarrow>
            (\<exists>r it. restart_offset b = Some r
               \<and> Iter cmp (block_data b) r n = Inr it
               \<and> NewIterator b cmp = Inr (BlockIterator it)
               \<and> comparator it = cmp \<and> data it = block_data b
               \<and> restarts it = r \<and> num_restarts it = n))"
proof (intro conjI impI allI)
  assume "block_size b < 4"
  then show "NewIterator b cmp = Inr (ErrorIterator (Corruption ''bad block contents''))"
    by (simp add: NewIterator_def NewErrorIterator_def)
next
  fix ops i
  assume "iterator_navigate_all ops (ErrorIterator (Corruption ''bad block contents'')) = Some (Inr i)"
  from iterator_navigate_all_Error[OF this]
  show "\<not> iterator_valid i" and "iterator_status i = Corruption ''bad block contents''"
    by simp_all
next
  assume "4 \<le> block_size b \<and> NumRestarts b = Inr 0"
  then show "NewIterator b cmp = Inr EmptyIterator"
    by (simp add: NewIterator_def NewEmptyIterator_def)
next
  fix ops i
  assume "iterator_navigate_all ops EmptyIterator = Some (Inr i)"
  from iterator_navigate_all_Empty[OF this]
  show "\<not> iterator_valid i" and "iterator_status i = OK" by simp_all
next
  fix n
  assume a: "4 \<le> block_size b \<and> NumRestarts b = Inr n \<and> n \<noteq> 0"
  with Block_valid_offset[OF assms] obtain r where r: "restart_offset b = Some r" by auto
  from a have n: "0 < n" by (simp add: word_neq_0_conv)
  let ?it = "\<lparr>comparator = cmp, data = block_data b, restarts = r, num_restarts = n,
                current = r, restart_index = n, key = [], val = EmptySlice, status = OK\<rparr>"
  from n have I: "Iter cmp (block_data b) r n = Inr ?it" by (simp add: Iter_def)
  with a r have "NewIterator b cmp = Inr (BlockIterator ?it)"
    by (simp add: NewIterator_def)
  with r I show "\<exists>r it. restart_offset b = Some r
               \<and> Iter cmp (block_data b) r n = Inr it
               \<and> NewIterator b cmp = Inr (BlockIterator it)
               \<and> comparator it = cmp \<and> data it = block_data b
               \<and> restarts it = r \<and> num_restarts it = n"
    by (intro exI[of _ r] exI[of _ ?it]) simp
qed

theorem NewIterator_variants_witness:
  "(\<exists>b. Block \<lparr>contents_data = [0, 0, 0], heap_allocated = False\<rparr> = Inr b
        \<and> block_size b < 4
        \<and> NewIterator b BytewiseComparator = Inr (ErrorIterator (Corruption ''bad block contents'')))
   \<and> iterator_navigate_all [DoSeekToFirst, DoSeek [0x61]] (ErrorIterator (Corruption ''bad block contents''))
        = Some (Inr (ErrorIterator (Corruption ''bad block contents'')))
   \<and> (\<exists>b. Block \<lparr>contents_data = [0, 0, 0, 0], heap_allocated = False\<rparr> = Inr b
        \<and> 4 \<le> block_size b \<and> NumRestarts b = Inr 0
        \<and> NewIterator b BytewiseComparator = Inr EmptyIterator)
   \<and> iterator_navigate_all [DoSeekToLast] EmptyIterator = Some (Inr EmptyIterator)
   \<and> (\<exists>b. Block \<lparr>contents_data = example_block, heap_allocated = False\<rparr> = Inr b
        \<and> 4 \<le> block_size b \<and> NumRestarts b = Inr 1
        \<and> NewIterator b BytewiseComparator = Inr (BlockIterator example_iter))"
proof -
  let ?c3 = "\<lparr>contents_data = [0, 0, 0], heap_allocated = False\<rparr>"
  let ?b3 = "\<lparr>block_data = [0, 0, 0], block_size = 0, restart_offset = None, owned = False\<rparr>"
  have B3: "Block ?c3 = Inr ?b3" by (simp add: Block_def Let_def)
  have s3: "block_size ?b3 < 4" by simp
  from NewIterator_variants[OF B3, of BytewiseComparator] s3
  have a: "NewIterator ?b3 BytewiseComparator = Inr (ErrorIterator (Corruption ''bad block contents''))"
    by blast
  let ?c4 = "\<lparr>contents_data = [0, 0, 0, 0], heap_allocated = False\<rparr>"
  let ?b4 = "\<lparr>block_data = [0, 0, 0, 0], block_size = 4, restart_offset = Some 0, owned = False\<rparr>"
  have B4: "Block ?c4 = Inr ?b4"
    by (simp add: Block_def Let_def NumRestarts_def DecodeFixed32_def)
  have s4: "4 \<le> block_size ?b4 \<and> NumRestarts ?b4 = Inr 0"
    by (simp add: NumRestarts_def DecodeFixed32_def)
  from NewIterator_variants[OF B4, of BytewiseComparator] s4
  have b: "NewIterator ?b4 BytewiseComparator = Inr EmptyIterator" by blast
  let ?ce = "\<lparr>contents_data = example_block, heap_allocated = False\<rparr>"
  let ?be = "\<lparr>block_data = example_block, block_size = 22, restart_offset = Some 14, owned = False\<rparr>"
  have Be: "Block ?ce = Inr ?be"
    by (simp add: Block_def Let_def NumRestarts_def DecodeFixed32_def example_block_def)
  have se: "4 \<le> block_size ?be \<and> NumRestarts ?be = Inr 1 \<and> (1::u32) \<noteq> 0"
    by (simp add: NumRestarts_def DecodeFixed32_def example_block_def)
  from NewIterator_variants[OF Be, of BytewiseComparator] se
  obtain r it where "restart_offset ?be = Some r" "Iter BytewiseComparator (block_data ?be) r 1 = Inr it"
    "NewIterator ?be BytewiseComparator = Inr (BlockIterator it)"
    by blast
  then have c: "NewIterator ?be BytewiseComparator = Inr (BlockIterator example_iter)"
    by (auto simp: Iter_def example_iter_def)
  have n1: "iterator_navigate_all [DoSeekToFirst, DoSeek [0x61]] (ErrorIterator (Corruption ''bad block contents''))
        = Some (Inr (ErrorIterator (Corruption ''bad block contents'')))" by simp
  have n2: "iterator_navigate_all [DoSeekToLast] EmptyIterator = Some (Inr EmptyIterator)" by simp
  from B3 s3 a B4 s4 b Be se c n1 n2 show ?thesis by blast
qed

subsection \<open>A fresh cursor\<close>

text \<open>
  C9. A freshly constructed cursor (the constructor's \<^verbatim>\<open>assert(num_restarts_ > 0)\<close>
  holds) is Invalid: \<open>current\<close> is the offset of the restart array, \<open>restart_index\<close> is
  \<open>num_restarts\<close>, the status is OK, \<open>Valid\<close> is false, and \<^verbatim>\<open>key()\<close>, \<^verbatim>\<open>value()\<close>,
  \<^verbatim>\<open>Next()\<close> and \<^verbatim>\<open>Prev()\<close> fail their \<^verbatim>\<open>assert(Valid())\<close>: nothing is exposed before
  a positioning call.
\<close>

theorem Iter_fresh:
  "0 < n \<Longrightarrow>
   \<exists>it. Iter cmp d rs n = Inr it \<and> current it = rs \<and> restart_index it = n
      \<and> current it = restarts it \<and> restart_index it = num_restarts it
      \<and> status_of it = OK \<and> \<not> Valid it
      \<and> key_of it = Inl AssertFailed \<and> value_of it = Inl AssertFailed
      \<and> Next it = Inl AssertFailed \<and> Prev it = Inl AssertFailed"
  by (simp add: Iter_def status_of_def Valid_def key_of_def value_of_def Next_def Prev_def)

theorem Iter_fresh_witness:
  "(0::u32) < 1 \<and>
   (\<exists>it. Iter BytewiseComparator example_block 14 1 = Inr it \<and> current it = 14 \<and> restart_index it = 1
      \<and> status_of it = OK \<and> \<not> Valid it \<and> key_of it = Inl AssertFailed
      \<and> Next it = Inl AssertFailed \<and> it = example_iter)"
proof -
  have pos: "(0::u32) < 1" by simp
  have ex: "Iter BytewiseComparator example_block 14 1 = Inr example_iter"
    by (simp add: Iter_def example_iter_def)
  from Iter_fresh[OF pos, of BytewiseComparator example_block 14] ex pos show ?thesis
    by auto
qed

subsection \<open>Prev on the first entry\<close>

text \<open>
  C10. When \<^verbatim>\<open>Prev\<close> is called on a valid cursor and every restart point from
  \<open>restart_index\<close> down to 0 has an offset \<open>\<ge>\<close> the current entry's offset, the cursor
  becomes Invalid (\<open>current = restarts\<close>, \<open>restart_index = num_restarts\<close>) and the status is
  left as it was.
\<close>

theorem Prev_at_first_entry:
  assumes "Valid it" and "restart_index it < num_restarts it"
    and "\<forall>j \<le> restart_index it. current it \<le> restart_point it j"
  shows "\<exists>it'. Prev it = Inr it' \<and> \<not> Valid it' \<and> status_of it' = status_of it
           \<and> current it' = restarts it' \<and> restart_index it' = num_restarts it'"
  using assms Prev_scan_none[of it "current it"]
  by (simp add: Prev_def Valid_def status_of_def)

lemma SeekToFirst_example: "SeekToFirst example_iter = Inr example_at_first"
  by (simp add: SeekToFirst_def SeekToRestartPoint_def GetRestartPoint_def DecodeFixed32_def
      ParseNextKey_def NextEntryOffset_def Let_def DecodeEntry_def DecodeEntry_lengths_def
      read_bytes_def ParseNextKey_restart.simps example_iter_def example_block_def
      example_at_first_def)

theorem Prev_at_first_entry_witness:
  "SeekToFirst example_iter = Inr example_at_first
   \<and> Valid example_at_first
   \<and> restart_index example_at_first < num_restarts example_at_first
   \<and> current example_at_first \<le> restart_point example_at_first 0
   \<and> (\<exists>it'. Prev example_at_first = Inr it' \<and> \<not> Valid it' \<and> status_of it' = OK
          \<and> current it' = 14 \<and> restart_index it' = 1)"
proof -
  have v: "Valid example_at_first" by (simp add: Valid_def example_at_first_def)
  have r: "restart_index example_at_first < num_restarts example_at_first"
    by (simp add: example_at_first_def)
  have a: "\<forall>j \<le> restart_index example_at_first.
             current example_at_first \<le> restart_point example_at_first j"
    by (simp add: example_at_first_def)
  have b: "current example_at_first \<le> restart_point example_at_first 0"
    by (simp add: example_at_first_def)
  from Prev_at_first_entry[OF v r a] obtain it' where
    "Prev example_at_first = Inr it'" "\<not> Valid it'" "status_of it' = status_of example_at_first"
    "current it' = restarts it'" "restart_index it' = num_restarts it'"
    by blast
  moreover from this have "it' = example_at_first\<lparr>current := 14, restart_index := 1\<rparr>"
    using Prev_scan_none[OF r, of "current example_at_first"] a v
    by (simp add: Prev_def example_at_first_def)
  ultimately show ?thesis using v r b SeekToFirst_example
    by (auto simp: status_of_def example_at_first_def)
qed

subsection \<open>DecodeEntry\<close>

lemma lt_128_bits:
  fixes z :: u32
  shows "z < 128 \<longleftrightarrow> (\<forall>n. bit z n \<longrightarrow> n < 7)"
proof -
  have "z < 2 ^ 7 \<longleftrightarrow> z AND mask 7 = z"
    by (rule mask_eq_iff_w2p[symmetric]) (simp add: word_size)
  also have "\<dots> \<longleftrightarrow> (\<forall>n. bit z n \<longrightarrow> n < 7)"
  proof
    assume e: "z AND mask 7 = z"
    show "\<forall>n. bit z n \<longrightarrow> n < 7"
    proof (intro allI impI)
      fix n
      assume "bit z n"
      with e have "bit (z AND mask 7) n" by simp
      then show "n < 7" by (simp add: bit_and_iff bit_mask_iff)
    qed
  next
    assume a: "\<forall>n. bit z n \<longrightarrow> n < 7"
    show "z AND mask 7 = z"
      by (rule bit_eqI) (use a in \<open>auto simp: bit_and_iff bit_mask_iff\<close>)
  qed
  finally show ?thesis by simp
qed

lemma or_lt_128:
  fixes x y :: u32
  shows "(x OR y) < 128 \<longleftrightarrow> x < 128 \<and> y < 128"
  unfolding lt_128_bits by (auto simp: bit_or_iff)

lemma unat_ucast_byte:
  fixes a :: byte
  shows "unat (ucast a :: u32) = unat a"
proof -
  have "unat a < 2 ^ 8" using unsigned_less[of a, where 'a=nat] by simp
  then have "unat a < 2 ^ 32" by simp
  then show ?thesis
    by (simp add: unsigned_ucast_eq take_bit_nat_eq_self)
qed

lemma ucast_lt_128:
  fixes a :: byte
  shows "(ucast a :: u32) < 128 \<longleftrightarrow> a < 128"
  by (simp add: word_less_nat_alt unat_ucast_byte)

text \<open>The fast path is taken exactly when three bytes are left and each is below 128.\<close>

lemma DecodeEntry_lengths_fast:
  "3 \<le> int limit - int p \<and> d ! p < 128 \<and> d ! (p + 1) < 128 \<and> d ! (p + 2) < 128 \<Longrightarrow>
   DecodeEntry_lengths d p limit = Some (p + 3, ucast (d ! p), ucast (d ! (p + 1)), ucast (d ! (p + 2)))"
  by (simp add: DecodeEntry_lengths_def or_lt_128 ucast_lt_128)

lemma DecodeEntry_lengths_general:
  assumes "\<not> (3 \<le> int limit - int p \<and> d ! p < 128 \<and> d ! (p + 1) < 128 \<and> d ! (p + 2) < 128)"
  shows "DecodeEntry_lengths d p limit =
     (case GetVarint32Ptr d p limit of
        None \<Rightarrow> None
      | Some (p1, shared) \<Rightarrow>
          (case GetVarint32Ptr d p1 limit of
             None \<Rightarrow> None
           | Some (p2, non_shared) \<Rightarrow>
               (case GetVarint32Ptr d p2 limit of
                  None \<Rightarrow> None
                | Some (p3, value_length) \<Rightarrow> Some (p3, shared, non_shared, value_length))))"
proof (cases "3 \<le> int limit - int p")
  case True
  with assms have "\<not> (d ! p < 128 \<and> d ! (p + 1) < 128 \<and> d ! (p + 2) < 128)" by simp
  then have "\<not> ((ucast (d ! p) :: u32) OR ucast (d ! (p + 1)) OR ucast (d ! (p + 2))) < 128"
    by (simp only: or_lt_128 ucast_lt_128 simp_thms)
  with True show ?thesis
    by (simp add: DecodeEntry_lengths_def)
next
  case False
  have none: False
    if "GetVarint32Ptr d p limit = Some (q1, a)" "GetVarint32Ptr d q1 limit = Some (q2, b)"
      "GetVarint32Ptr d q2 limit = Some (q3, c)" for q1 a q2 b q3 c
    using GetVarint32Ptr_bounds[OF that(1)] GetVarint32Ptr_bounds[OF that(2)]
      GetVarint32Ptr_bounds[OF that(3)] False
    by simp
  have "(case GetVarint32Ptr d p limit of
        None \<Rightarrow> None
      | Some (p1, shared) \<Rightarrow>
          (case GetVarint32Ptr d p1 limit of
             None \<Rightarrow> None
           | Some (p2, non_shared) \<Rightarrow>
               (case GetVarint32Ptr d p2 limit of
                  None \<Rightarrow> None
                | Some (p3, value_length) \<Rightarrow> Some (p3, shared, non_shared, value_length)))) = None"
  proof (cases "GetVarint32Ptr d p limit")
    case None
    then show ?thesis by simp
  next
    case (Some r1)
    obtain q1 a where r1: "r1 = (q1, a)" by (cases r1)
    show ?thesis
    proof (cases "GetVarint32Ptr d q1 limit")
      case None
      with Some r1 show ?thesis by simp
    next
      case s2: (Some r2)
      obtain q2 b where r2: "r2 = (q2, b)" by (cases r2)
      show ?thesis
      proof (cases "GetVarint32Ptr d q2 limit")
        case None
        with Some r1 s2 r2 show ?thesis by simp
      next
        case s3: (Some r3)
        obtain q3 c where r3: "r3 = (q3, c)" by (cases r3)
        from none[of q1 a q2 b q3 c] Some r1 s2 r2 s3 r3 show ?thesis by simp
      qed
    qed
  qed
  with False show ?thesis by (simp add: DecodeEntry_lengths_def)
qed

text \<open>
  C7. \<^verbatim>\<open>DecodeEntry\<close> takes the one-byte path exactly when three bytes are left and each
  is below 128 (\<open>DecodeEntry_lengths_fast\<close>), and reads three varints otherwise
  (\<open>DecodeEntry_lengths_general\<close>); but its last check compares the bytes left with the
  \<^verbatim>\<open>uint32_t\<close> sum \<^verbatim>\<open>*non_shared + *value_length\<close>, which wraps. On \<open>wrapped_block\<close>
  the lengths 4294967295 and 1 add up to 0, and \<^verbatim>\<open>DecodeEntry\<close> returns the entry although
  no byte is left before \<open>limit\<close>.
\<close>

theorem DecodeEntry_wrapped:
  "DecodeEntry wrapped_block 0 7 = Some (7, 0, 4294967295, 1)
   \<and> 7 - 7 < unat (4294967295 :: u32) + unat (1 :: u32)"
  by (simp add: DecodeEntry_def DecodeEntry_lengths_def GetVarint32Ptr_def
      GetVarint32Ptr_loop.simps wrapped_block_def)

subsection \<open>ParseNextKey\<close>

text \<open>
  C2. On \<open>wrapped_block\<close> \<^verbatim>\<open>ParseNextKey\<close>, called at the restart point, gets an entry
  from \<^verbatim>\<open>DecodeEntry\<close> whose key delta is 4294967295 bytes long, in a buffer of 15 bytes:
  \<^verbatim>\<open>key_.append(p, non_shared)\<close> reads behind the end of the buffer, where the specification
  has the key set and success returned.
\<close>

theorem ParseNextKey_wrapped:
  "SeekToRestartPoint 0 wrapped_iter = Inr wrapped_at_restart
   \<and> NextEntryOffset wrapped_at_restart = Inr 0
   \<and> DecodeEntry (data wrapped_at_restart) 0 (unat (restarts wrapped_at_restart))
        = Some (7, 0, 4294967295, 1)
   \<and> length (data wrapped_at_restart) = 15
   \<and> ParseNextKey wrapped_at_restart = Inl Undefined
   \<and> SeekToFirst wrapped_iter = Inl Undefined"
  by (simp add: eval_defs wrapped_iter_def wrapped_at_restart_def wrapped_block_def)

subsection \<open>Seek: a bad restart entry ends the binary search\<close>

lemma Seek_window_search:
  "Seek_window target it left right \<Longrightarrow>
   Seek_search target it 0 (num_restarts it - 1) = Seek_search target it left right"
proof (induction rule: Seek_window.induct)
  case start
  show ?case by simp
next
  case (smaller left right region_offset key_ptr non_shared value_length c)
  then show ?case by (simp add: Seek_search.simps[of target it left right])
next
  case (not_smaller left right region_offset key_ptr non_shared value_length c)
  then show ?case by (simp add: Seek_search.simps[of target it left right])
qed

lemma Seek_search_abort:
  assumes "left < right"
    and "GetRestartPoint it ((left + right + 1) div 2) = Inr region_offset"
    and "DecodeEntry (data it) (unat region_offset) (unat (restarts it)) = None
         \<or> (\<exists>key_ptr shared non_shared value_length.
               DecodeEntry (data it) (unat region_offset) (unat (restarts it))
                 = Some (key_ptr, shared, non_shared, value_length) \<and> shared \<noteq> 0)"
  shows "Seek_search target it left right = Some (Inr None)"
  using assms by (subst Seek_search.simps) auto

text \<open>
  C8. When the binary search of \<^verbatim>\<open>Seek(target)\<close> has reached a window \<open>left < right\<close> and
  the entry at the restart point in its middle does not decode, or decodes with a shared
  length that is not 0, the loop returns at once (it is not entered again: no other
  restart point is read, and the result is the same for every comparator), and
  \<^verbatim>\<open>Seek\<close> leaves the cursor as \<^verbatim>\<open>CorruptionError\<close> does: Invalid, with the status
  "bad entry in block".
\<close>

theorem Seek_abort_on_bad_restart:
  assumes "Seek_window target it left right" and "left < right"
    and "GetRestartPoint it ((left + right + 1) div 2) = Inr region_offset"
    and "DecodeEntry (data it) (unat region_offset) (unat (restarts it)) = None
         \<or> (\<exists>key_ptr shared non_shared value_length.
               DecodeEntry (data it) (unat region_offset) (unat (restarts it))
                 = Some (key_ptr, shared, non_shared, value_length) \<and> shared \<noteq> 0)"
  shows "Seek_search target it left right = Some (Inr None)
       \<and> (\<forall>cmp. Seek_search target (it\<lparr>comparator := cmp\<rparr>) left right = Some (Inr None))
       \<and> Seek target it = Some (Inr (CorruptionError it))
       \<and> \<not> Valid (CorruptionError it)
       \<and> status_of (CorruptionError it) = Corruption ''bad entry in block''
       \<and> current (CorruptionError it) = restarts it
       \<and> restart_index (CorruptionError it) = num_restarts it"
proof -
  have a: "Seek_search target it left right = Some (Inr None)"
    by (rule Seek_search_abort[OF assms(2-4)])
  have b: "Seek_search target (it\<lparr>comparator := cmp\<rparr>) left right = Some (Inr None)" for cmp
    by (rule Seek_search_abort[where region_offset = region_offset])
       (use assms(2-4) in \<open>auto simp: GetRestartPoint_def split: if_splits\<close>)
  from Seek_window_search[OF assms(1)] a
  have "Seek target it = Some (Inr (CorruptionError it))"
    by (simp add: Seek_def)
  with a b show ?thesis
    by (simp add: CorruptionError_def Valid_def status_of_def)
qed

theorem Seek_abort_on_bad_restart_witness:
  "Seek_window [0x62] bad_restart_iter 0 1 \<and> (0::u32) < 1
   \<and> GetRestartPoint bad_restart_iter ((0 + 1 + 1) div 2) = Inr 6
   \<and> DecodeEntry (data bad_restart_iter) (unat (6::u32)) (unat (restarts bad_restart_iter))
        = Some (9, 1, 1, 1)
   \<and> Seek [0x62] bad_restart_iter = Some (Inr (CorruptionError bad_restart_iter))
   \<and> status_of (CorruptionError bad_restart_iter) = Corruption ''bad entry in block''
   \<and> DecodeEntry (data past_wrapped_iter) (unat (10::u32)) (unat (restarts past_wrapped_iter))
        = Some (17, 0, 4294967295, 1)
   \<and> length (data past_wrapped_iter) = 37
   \<and> Compare_slice past_wrapped_iter 17 (unat (4294967295::u32)) [] = Inr 1
   \<and> Seek_window [] past_wrapped_iter 0 1
   \<and> GetRestartPoint past_wrapped_iter ((0 + 1 + 1) div 2) = Inr 5
   \<and> DecodeEntry (data past_wrapped_iter) (unat (5::u32)) (unat (restarts past_wrapped_iter))
        = Some (8, 1, 1, 1)
   \<and> Seek [] past_wrapped_iter = Some (Inr (CorruptionError past_wrapped_iter))
   \<and> \<not> Valid (CorruptionError past_wrapped_iter)
   \<and> status_of (CorruptionError past_wrapped_iter) = Corruption ''bad entry in block''"
proof -
  have p0: "Seek_window [] past_wrapped_iter 0 (num_restarts past_wrapped_iter - 1)"
    by (rule Seek_window.start)
  then have p0': "Seek_window [] past_wrapped_iter 0 3"
    by (simp add: past_wrapped_iter_def)
  have p1: "GetRestartPoint past_wrapped_iter ((0 + 3 + 1) div 2) = Inr 10"
    by (simp add: eval_defs past_wrapped_iter_def past_wrapped_block_def)
  have p2: "DecodeEntry (data past_wrapped_iter) (unat (10::u32)) (unat (restarts past_wrapped_iter))
        = Some (17, 0, 4294967295, 1)"
    by (simp add: eval_defs past_wrapped_iter_def past_wrapped_block_def)
  have p3: "Compare_slice past_wrapped_iter 17 (unat (4294967295::u32)) [] = Inr 1"
    by (simp add: eval_defs past_wrapped_iter_def past_wrapped_block_def)
  have "Seek_window [] past_wrapped_iter 0 ((0 + 3 + 1) div 2 - 1)"
    by (rule Seek_window.not_smaller[OF p0' _ p1 p2 p3]) simp_all
  then have pw: "Seek_window [] past_wrapped_iter 0 1" by simp
  have pg: "GetRestartPoint past_wrapped_iter ((0 + 1 + 1) div 2) = Inr 5"
    by (simp add: eval_defs past_wrapped_iter_def past_wrapped_block_def)
  have pd: "DecodeEntry (data past_wrapped_iter) (unat (5::u32)) (unat (restarts past_wrapped_iter))
        = Some (8, 1, 1, 1)"
    by (simp add: eval_defs past_wrapped_iter_def past_wrapped_block_def)
  then have pd': "DecodeEntry (data past_wrapped_iter) (unat (5::u32)) (unat (restarts past_wrapped_iter)) = None
         \<or> (\<exists>key_ptr shared non_shared value_length.
               DecodeEntry (data past_wrapped_iter) (unat (5::u32)) (unat (restarts past_wrapped_iter))
                 = Some (key_ptr, shared, non_shared, value_length) \<and> shared \<noteq> 0)"
    by simp
  have plen: "length (data past_wrapped_iter) = 37"
    by (simp add: past_wrapped_iter_def past_wrapped_block_def)
  have plt: "(0::u32) < 1" by simp
  note P = Seek_abort_on_bad_restart[OF pw plt pg pd']
  have w: "Seek_window [0x62] bad_restart_iter 0 (num_restarts bad_restart_iter - 1)"
    by (rule Seek_window.start)
  then have w': "Seek_window [0x62] bad_restart_iter 0 1"
    by (simp add: bad_restart_iter_def)
  have lt: "(0::u32) < 1" by simp
  have g: "GetRestartPoint bad_restart_iter ((0 + 1 + 1) div 2) = Inr 6"
    by (simp add: eval_defs bad_restart_iter_def bad_restart_block_def)
  have d: "DecodeEntry (data bad_restart_iter) (unat (6::u32)) (unat (restarts bad_restart_iter))
        = Some (9, 1, 1, 1)"
    by (simp add: eval_defs bad_restart_iter_def bad_restart_block_def)
  then have d': "DecodeEntry (data bad_restart_iter) (unat (6::u32)) (unat (restarts bad_restart_iter)) = None
         \<or> (\<exists>key_ptr shared non_shared value_length.
               DecodeEntry (data bad_restart_iter) (unat (6::u32)) (unat (restarts bad_restart_iter))
                 = Some (key_ptr, shared, non_shared, value_length) \<and> shared \<noteq> 0)"
    by simp
  note Q = Seek_abort_on_bad_restart[OF w' lt g d']
  from P have P': "Seek [] past_wrapped_iter = Some (Inr (CorruptionError past_wrapped_iter))"
    "\<not> Valid (CorruptionError past_wrapped_iter)"
    "status_of (CorruptionError past_wrapped_iter) = Corruption ''bad entry in block''"
    by simp_all
  from Q have Q': "Seek [0x62] bad_restart_iter = Some (Inr (CorruptionError bad_restart_iter))"
    "status_of (CorruptionError bad_restart_iter) = Corruption ''bad entry in block''"
    by simp_all
  show ?thesis
    by (intro conjI) (rule w' lt g d Q' p2 plen p3 pw pg pd P')+
qed

subsection \<open>The status is sticky, the cursor is not pinned\<close>

lemma status_step_cong: "status it1 = status it \<Longrightarrow> status_step it1 it' \<Longrightarrow> status_step it it'"
  by (simp add: status_step_def)

lemma status_step_refl: "status it' = status it \<Longrightarrow> status_step it it'"
  by (simp add: status_step_def)

lemma ParseNextKey_True_status:
  "ParseNextKey it = Inr (it', True) \<Longrightarrow> status it' = status it"
  using ParseNextKey_True[of it it'] by auto

lemma ParseNextKey_False_status:
  assumes "ParseNextKey it = Inr (it', False)"
  shows "status_step it it'"
proof -
  from assms obtain off len where v: "val it = Slice off len"
    by (cases "val it") (auto simp: ParseNextKey_def NextEntryOffset_def)
  let ?c = "of_nat (off + len) :: u32"
  let ?it = "it\<lparr>current := ?c\<rparr>"
  have "it' = ?it\<lparr>current := restarts it, restart_index := num_restarts it\<rparr>
        \<or> it' = CorruptionError ?it"
    using assms v
    by (auto simp: ParseNextKey_def NextEntryOffset_def Let_def
        split: if_splits option.splits sum.splits)
  then show ?thesis
    by (auto simp: status_step_def CorruptionError_def Valid_def)
qed

lemma ParseNextKey_status:
  "ParseNextKey it = Inr (it', ok) \<Longrightarrow> status_step it it'"
  by (cases ok) (auto simp: ParseNextKey_True_status ParseNextKey_False_status status_step_refl)

lemma ParseNextKey_until_status:
  "ParseNextKey_until bound it = Inr it' \<Longrightarrow> status_step it it'"
proof (induction bound it rule: ParseNextKey_until.induct)
  case (1 bound it)
  from "1.prems" obtain it1 ok where p: "ParseNextKey it = Inr (it1, ok)"
    by (subst (asm) ParseNextKey_until.simps) (auto split: sum.splits)
  show ?case
  proof (cases ok)
    case False
    with p "1.prems" have "it' = it1"
      by (subst (asm) ParseNextKey_until.simps) simp
    with p show ?thesis by (simp add: ParseNextKey_status)
  next
    case True
    with p have s: "status it1 = status it" by (simp add: ParseNextKey_True_status)
    from True p "1.prems" obtain n where n: "NextEntryOffset it1 = Inr n"
      by (subst (asm) ParseNextKey_until.simps) (auto split: sum.splits)
    show ?thesis
    proof (cases "n < bound")
      case False
      with True p n "1.prems" have "it' = it1"
        by (subst (asm) ParseNextKey_until.simps) simp
      with s show ?thesis by (simp add: status_step_refl)
    next
      case lt: True
      with True p n "1.prems" have "ParseNextKey_until bound it1 = Inr it'"
        by (subst (asm) ParseNextKey_until.simps) simp
      from "1.IH"[OF p refl True n lt this] s show ?thesis
        by (rule status_step_cong[rotated])
    qed
  qed
qed

lemma Seek_linear_status:
  "Seek_linear target it = Inr it' \<Longrightarrow> status_step it it'"
proof (induction target it rule: Seek_linear.induct)
  case (1 target it)
  from "1.prems" obtain it1 ok where p: "ParseNextKey it = Inr (it1, ok)"
    by (subst (asm) Seek_linear.simps) (auto split: sum.splits)
  show ?case
  proof (cases ok)
    case False
    with p "1.prems" have "it' = it1"
      by (subst (asm) Seek_linear.simps) simp
    with p show ?thesis by (simp add: ParseNextKey_status)
  next
    case True
    with p have s: "status it1 = status it" by (simp add: ParseNextKey_True_status)
    show ?thesis
    proof (cases "Compare it1 (key it1) target \<ge> 0")
      case ge: True
      with True p "1.prems" have "it' = it1"
        by (subst (asm) Seek_linear.simps) simp
      with s show ?thesis by (simp add: status_step_refl)
    next
      case lt: False
      with True p "1.prems" have "Seek_linear target it1 = Inr it'"
        by (subst (asm) Seek_linear.simps) simp
      from "1.IH"[OF p refl _ lt this] True s show ?thesis
        by (auto intro: status_step_cong)
    qed
  qed
qed

lemma SeekToRestartPoint_status:
  "SeekToRestartPoint i it = Inr it' \<Longrightarrow> status it' = status it"
  by (auto simp: SeekToRestartPoint_def split: sum.splits)

lemma Prev_scan_status:
  "Prev_scan original it = Inr (it', found) \<Longrightarrow> status it' = status it"
proof (induction original it rule: Prev_scan.induct)
  case (1 original it)
  from "1.prems" obtain r where g: "GetRestartPoint it (restart_index it) = Inr r"
    by (subst (asm) Prev_scan.simps) (auto split: sum.splits)
  show ?case
  proof (cases "r \<ge> original \<and> restart_index it \<noteq> 0")
    case True
    with g "1.prems" have "Prev_scan original (it\<lparr>restart_index := restart_index it - 1\<rparr>) = Inr (it', found)"
      by (subst (asm) Prev_scan.simps) simp
    from "1.IH"[OF g _ _ this] True show ?thesis by simp
  next
    case False
    with g "1.prems" show ?thesis
      by (subst (asm) Prev_scan.simps) (auto split: if_splits)
  qed
qed

lemma Next_status: "Next it = Inr it' \<Longrightarrow> status_step it it'"
  by (auto simp: Next_def ParseNextKey_status split: if_splits sum.splits)

lemma SeekToFirst_status: "SeekToFirst it = Inr it' \<Longrightarrow> status_step it it'"
  by (auto simp: SeekToFirst_def split: sum.splits
      dest!: SeekToRestartPoint_status ParseNextKey_status intro: status_step_cong)

lemma SeekToLast_status: "SeekToLast it = Inr it' \<Longrightarrow> status_step it it'"
  by (auto simp: SeekToLast_def split: sum.splits
      dest!: SeekToRestartPoint_status ParseNextKey_until_status intro: status_step_cong)

lemma Prev_status: "Prev it = Inr it' \<Longrightarrow> status_step it it'"
  by (auto simp: Prev_def status_step_def split: sum.splits if_splits
      dest!: SeekToRestartPoint_status ParseNextKey_until_status Prev_scan_status)

lemma Seek_status: "Seek target it = Some (Inr it') \<Longrightarrow> status_step it it'"
proof -
  assume a: "Seek target it = Some (Inr it')"
  show ?thesis
  proof (cases "Seek_search target it 0 (num_restarts it - 1)")
    case None
    with a show ?thesis by (simp add: Seek_def)
  next
    case (Some r)
    show ?thesis
    proof (cases r)
      case (Inl f)
      with Some a show ?thesis by (simp add: Seek_def)
    next
      case (Inr l)
      show ?thesis
      proof (cases l)
        case None
        with Some Inr a have "it' = CorruptionError it" by (simp add: Seek_def)
        then show ?thesis by (simp add: status_step_def CorruptionError_def Valid_def)
      next
        case s: (Some left)
        with Some Inr a obtain it1 where "SeekToRestartPoint left it = Inr it1"
          "Seek_linear target it1 = Inr it'"
          by (auto simp: Seek_def split: sum.splits)
        then show ?thesis
          by (auto dest!: SeekToRestartPoint_status Seek_linear_status intro: status_step_cong)
      qed
    qed
  qed
qed

lemma navigate_status: "navigate n it = Some (Inr it') \<Longrightarrow> status_step it it'"
  by (cases n) (auto simp: Next_status Prev_status Seek_status SeekToFirst_status SeekToLast_status)

lemma navigate_all_sticky:
  "status it = Corruption ''bad entry in block'' \<Longrightarrow> navigate_all ops it = Some (Inr it') \<Longrightarrow>
   status it' = Corruption ''bad entry in block''"
proof (induction ops arbitrary: it)
  case Nil
  then show ?case by simp
next
  case (Cons n ops)
  from Cons.prems(2) obtain it1 where n: "navigate n it = Some (Inr it1)"
    and r: "navigate_all ops it1 = Some (Inr it')"
    by (auto split: option.splits sum.splits)
  from navigate_status[OF n] Cons.prems(1) have "status it1 = Corruption ''bad entry in block''"
    by (auto simp: status_step_def)
  from Cons.IH[OF this r] show ?case .
qed

text \<open>
  C3, as the specification states it, fails: on \<open>bad_shared_block\<close> \<^verbatim>\<open>SeekToFirst\<close> and \<^verbatim>\<open>Next\<close>
  record the corruption and leave the cursor Invalid, and a second \<^verbatim>\<open>SeekToFirst\<close> makes
  the cursor valid again, on the first entry, with the corruption status still set.
\<close>

theorem valid_again_after_corruption:
  "SeekToFirst bad_shared_iter = Inr bad_shared_at_first
   \<and> Next bad_shared_at_first = Inr bad_shared_failed
   \<and> status_of bad_shared_failed = Corruption ''bad entry in block''
   \<and> \<not> Valid bad_shared_failed
   \<and> SeekToFirst bad_shared_failed = Inr bad_shared_again
   \<and> Valid bad_shared_again
   \<and> status_of bad_shared_again = Corruption ''bad entry in block''"
  by (simp add: eval_defs bad_shared_defs)

text \<open>
  C3, amended. A navigation call that returns leaves the status as it was, or records
  "bad entry in block" and leaves the cursor Invalid; and once that status is recorded,
  it is the status after every sequence of navigation calls that returns. The cursor is
  not pinned: a later positioning call can make it valid again.
\<close>

theorem status_sticky:
  "(navigate n it = Some (Inr it') \<longrightarrow>
      status_of it' = status_of it
      \<or> (status_of it' = Corruption ''bad entry in block'' \<and> \<not> Valid it'))
   \<and> (status_of it = Corruption ''bad entry in block'' \<and> navigate_all ops it = Some (Inr it'')
        \<longrightarrow> status_of it'' = Corruption ''bad entry in block'')"
  using navigate_status[of n it it'] navigate_all_sticky[of it ops it'']
  by (auto simp: status_step_def status_of_def)

theorem status_sticky_witness:
  "navigate DoNext bad_shared_at_first = Some (Inr bad_shared_failed)
   \<and> status_of bad_shared_at_first = OK
   \<and> status_of bad_shared_failed = Corruption ''bad entry in block''
   \<and> \<not> Valid bad_shared_failed
   \<and> navigate_all [DoSeekToFirst, DoSeek [0x61], DoSeekToLast] bad_shared_failed
        = Some (Inr bad_shared_failed)
   \<and> navigate_all [DoSeekToLast, DoSeek [0x61]] bad_shared_failed = Some (Inr bad_shared_again)
   \<and> status_of bad_shared_again = Corruption ''bad entry in block''
   \<and> navigate_all [DoSeekToFirst, DoNext] seek_again_iter = Some (Inr seek_again_failed)
   \<and> status_of seek_again_failed = Corruption ''bad entry in block''
   \<and> \<not> Valid seek_again_failed
   \<and> navigate (DoSeek []) seek_again_failed = Some (Inr seek_again_valid)
   \<and> Valid seek_again_valid
   \<and> status_of seek_again_valid = Corruption ''bad entry in block''"
proof -
  have e: "navigate_all [DoSeekToFirst, DoNext] seek_again_iter = Some (Inr seek_again_failed)"
    by (simp add: eval_defs seek_again_defs)
  have f: "navigate (DoSeek []) seek_again_failed = Some (Inr seek_again_valid)"
    by (simp add: eval_defs Seek_def Seek_search.simps Seek_linear.simps seek_again_defs)
  then have f': "navigate_all [DoSeek []] seek_again_failed = Some (Inr seek_again_valid)"
    by simp
  have g: "status_of seek_again_failed = Corruption ''bad entry in block''"
    "\<not> Valid seek_again_failed" "Valid seek_again_valid"
    by (simp_all add: status_of_def Valid_def seek_again_defs)
  from status_sticky[of "DoSeek []" seek_again_failed seek_again_valid
      "[DoSeek []]" seek_again_valid] f f' g
  have h: "status_of seek_again_valid = Corruption ''bad entry in block''"
    by simp
  have a: "navigate DoNext bad_shared_at_first = Some (Inr bad_shared_failed)"
    by (simp add: eval_defs bad_shared_defs)
  have b: "status_of bad_shared_failed = Corruption ''bad entry in block''"
    by (simp add: status_of_def bad_shared_defs)
  have c: "navigate_all [DoSeekToLast, DoSeek [0x61]] bad_shared_failed = Some (Inr bad_shared_again)"
    by (simp add: eval_defs Seek_def Seek_search.simps Seek_linear.simps
        ParseNextKey_until.simps bad_shared_defs)
  have d: "navigate_all [DoSeekToFirst, DoSeek [0x61], DoSeekToLast] bad_shared_failed
        = Some (Inr bad_shared_failed)"
    by (simp add: eval_defs Seek_def Seek_search.simps Seek_linear.simps
        ParseNextKey_until.simps bad_shared_defs)
  from status_sticky[of DoNext bad_shared_at_first bad_shared_failed
      "[DoSeekToLast, DoSeek [0x61]]" bad_shared_again] a b c d
  have i: "navigate DoNext bad_shared_at_first = Some (Inr bad_shared_failed)
   \<and> status_of bad_shared_at_first = OK
   \<and> status_of bad_shared_failed = Corruption ''bad entry in block''
   \<and> \<not> Valid bad_shared_failed
   \<and> navigate_all [DoSeekToFirst, DoSeek [0x61], DoSeekToLast] bad_shared_failed
        = Some (Inr bad_shared_failed)
   \<and> navigate_all [DoSeekToLast, DoSeek [0x61]] bad_shared_failed = Some (Inr bad_shared_again)
   \<and> status_of bad_shared_again = Corruption ''bad entry in block''"
    by (simp add: status_of_def Valid_def bad_shared_defs)
  from i e f g h show ?thesis by (simp only: simp_thms)
qed

subsection \<open>The layout of a well-formed block\<close>

lemma entries_from_Nil:
  "entries_from d limit off prev = Some [] \<longleftrightarrow> off = limit"
  by (subst entries_from.simps) (auto split: option.splits prod.splits)

lemma entries_from_Cons:
  assumes "entries_from d limit off prev = Some (e # rest)"
  shows "\<exists>q sh ns vl.
           off < limit
         \<and> DecodeEntry d off limit = Some (q, sh, ns, vl)
         \<and> unat sh \<le> length prev
         \<and> q + unat ns + unat vl \<le> limit
         \<and> e = \<lparr>e_off = off, e_key = take (unat sh) prev @ take (unat ns) (drop q d),
                 e_voff = q + unat ns, e_vlen = unat vl\<rparr>
         \<and> entries_from d limit (q + unat ns + unat vl) (e_key e) = Some rest"
  using assms
  by (subst (asm) entries_from.simps) (auto split: option.splits prod.splits if_splits)

lemma entries_from_shared_0:
  assumes "DecodeEntry d off limit = Some (q, 0, ns, vl)"
  shows "entries_from d limit off prev = entries_from d limit off []"
proof -
  from DecodeEntry_Some(2,3)[OF assms] have "off < limit" by simp
  with assms show ?thesis
    by (auto simp: entries_from.simps[of d limit off prev] entries_from.simps[of d limit off "[]"]
        split: option.splits)
qed

text \<open>The list of entries from the \<open>k\<close>-th entry on is the list of entries decoded from its
  offset, with the key of the entry before it.\<close>

lemma entries_from_drop:
  "entries_from d limit off prev = Some es \<Longrightarrow> k < length es \<Longrightarrow>
   entries_from d limit (e_off (es ! k)) (if k = 0 then prev else e_key (es ! (k - 1)))
     = Some (drop k es)"
proof (induction es arbitrary: off prev k)
  case Nil
  then show ?case by simp
next
  case (Cons e rest)
  from entries_from_Cons[OF Cons.prems(1)] obtain q and sh ns vl :: u32 where
    e: "e = \<lparr>e_off = off, e_key = take (unat sh) prev @ take (unat ns) (drop q d),
                 e_voff = q + unat ns, e_vlen = unat vl\<rparr>"
    and r: "entries_from d limit (q + unat ns + unat vl) (e_key e) = Some rest"
    by blast
  show ?case
  proof (cases k)
    case 0
    with Cons.prems(1) e show ?thesis by simp
  next
    case (Suc k')
    with Cons.prems(2) have k': "k' < length rest" by simp
    from Cons.IH[OF r k'] Suc show ?thesis
      by (cases k') simp_all
  qed
qed

lemma entries_from_bounds:
  "entries_from d limit off prev = Some es \<Longrightarrow> e \<in> set es \<Longrightarrow>
   off \<le> e_off e \<and> e_off e + 3 \<le> e_voff e + e_vlen e \<and> e_voff e + e_vlen e \<le> limit"
proof (induction es arbitrary: off prev)
  case Nil
  then show ?case by simp
next
  case (Cons x rest)
  from entries_from_Cons[OF Cons.prems(1)] obtain q sh ns vl where
    d: "DecodeEntry d off limit = Some (q, sh, ns, vl)"
    and b: "q + unat ns + unat vl \<le> limit"
    and x: "x = \<lparr>e_off = off, e_key = take (unat sh) prev @ take (unat ns) (drop q d),
                 e_voff = q + unat ns, e_vlen = unat vl\<rparr>"
    and r: "entries_from d limit (q + unat ns + unat vl) (e_key x) = Some rest"
    by blast
  note D = DecodeEntry_Some[OF d]
  show ?case
  proof (cases "e = x")
    case True
    with x D(2) b show ?thesis by simp
  next
    case False
    with Cons.prems(2) have "e \<in> set rest" by simp
    from Cons.IH[OF r this] D(2) show ?thesis by simp
  qed
qed

text \<open>An entry ends where the next one starts, and the last one ends at the restart array.\<close>

lemma entries_from_next:
  "entries_from d limit off prev = Some es \<Longrightarrow> k < length es \<Longrightarrow>
   e_voff (es ! k) + e_vlen (es ! k) = (if Suc k < length es then e_off (es ! Suc k) else limit)"
proof (induction es arbitrary: off prev k)
  case Nil
  then show ?case by simp
next
  case (Cons x rest)
  from entries_from_Cons[OF Cons.prems(1)] obtain q and sh ns vl :: u32 where
    x: "x = \<lparr>e_off = off, e_key = take (unat sh) prev @ take (unat ns) (drop q d),
                 e_voff = q + unat ns, e_vlen = unat vl\<rparr>"
    and r: "entries_from d limit (q + unat ns + unat vl) (e_key x) = Some rest"
    by blast
  show ?case
  proof (cases k)
    case 0
    show ?thesis
    proof (cases rest)
      case Nil
      with r have "q + unat ns + unat vl = limit" by (simp add: entries_from_Nil)
      with 0 Nil x show ?thesis by simp
    next
      case (Cons y ys)
      with r entries_from_Cons[of d limit "q + unat ns + unat vl" "e_key x" y ys]
      have "e_off y = q + unat ns + unat vl" by auto
      with 0 Cons x show ?thesis by simp
    qed
  next
    case (Suc k')
    with Cons.prems(2) have k': "k' < length rest" by simp
    from Cons.IH[OF r k'] Suc show ?thesis by simp
  qed
qed

lemma entries_from_first:
  "entries_from d limit off prev = Some (e # rest) \<Longrightarrow> e_off e = off"
  using entries_from_Cons[of d limit off prev e rest] by auto

text \<open>The offsets of the entries are strictly increasing.\<close>

lemma entries_from_off_mono:
  assumes "entries_from d limit off prev = Some es" and "i < j" and "j < length es"
  shows "e_voff (es ! i) + e_vlen (es ! i) \<le> e_off (es ! j)"
    and "e_off (es ! i) < e_off (es ! j)"
proof -
  have *: "e_voff (es ! i) + e_vlen (es ! i) \<le> e_off (es ! (i + Suc n))" if "i + Suc n < length es" for n
    using that
  proof (induction n)
    case 0
    with entries_from_next[OF assms(1), of i] show ?case by simp
  next
    case (Suc n)
    then have a: "e_voff (es ! i) + e_vlen (es ! i) \<le> e_off (es ! (i + Suc n))" by simp
    from Suc.prems have m: "i + Suc n < length es" by simp
    from entries_from_next[OF assms(1) m] Suc.prems
    have "e_voff (es ! (i + Suc n)) + e_vlen (es ! (i + Suc n)) = e_off (es ! (i + Suc (Suc n)))"
      by simp
    moreover from entries_from_bounds[OF assms(1), of "es ! (i + Suc n)"] m
    have "e_off (es ! (i + Suc n)) + 3 \<le> e_voff (es ! (i + Suc n)) + e_vlen (es ! (i + Suc n))"
      by simp
    ultimately show ?case using a by simp
  qed
  from less_imp_Suc_add[OF assms(2)] obtain n where "j = Suc (i + n)" by (elim exE)
  then have j: "j = i + Suc n" by simp
  with *[of n] assms(3) show "e_voff (es ! i) + e_vlen (es ! i) \<le> e_off (es ! j)" by simp
  moreover from entries_from_bounds[OF assms(1), of "es ! i"] assms(2,3)
  have "e_off (es ! i) + 3 \<le> e_voff (es ! i) + e_vlen (es ! i)" by simp
  ultimately show "e_off (es ! i) < e_off (es ! j)" by simp
qed

lemma entries_from_le:
  "entries_from d limit off prev = Some es \<Longrightarrow> off \<le> limit"
  by (subst (asm) entries_from.simps) (auto split: if_splits)

lemma unat_of_nat_u32: "n < 2 ^ 32 \<Longrightarrow> unat (of_nat n :: u32) = n"
  by (simp add: unat_of_nat)

lemma unat_u32_less: "unat (w :: u32) < 2 ^ 32"
  using unsigned_less[of w, where 'a=nat] by simp

lemma ParseNextKey_at_end:
  assumes "before it []"
  shows "ParseNextKey it = Inr (it\<lparr>current := restarts it, restart_index := num_restarts it\<rparr>, False)"
proof -
  from assms obtain vo vl where v: "val it = Slice vo vl"
    and "entries_from (data it) (unat (restarts it)) (vo + vl) (key it) = Some []"
    by (auto simp: before_def)
  then have "vo + vl = unat (restarts it)" by (simp add: entries_from_Nil)
  then have "(of_nat (vo + vl) :: u32) = restarts it" by simp
  with v show ?thesis
    by (simp add: ParseNextKey_def NextEntryOffset_def Let_def)
qed

lemma ParseNextKey_at_entry:
  assumes "before it (e # rest)" and "unat (restarts it) \<le> length (data it)"
  shows "\<exists>ri. ParseNextKey it
               = Inr (it\<lparr>current := of_nat (e_off e), key := e_key e,
                         val := Slice (e_voff e) (e_vlen e), restart_index := ri\<rparr>, True)
             \<and> (restart_index it < num_restarts it \<longrightarrow> ri < num_restarts it)"
proof -
  from assms(1) obtain vo vl where v: "val it = Slice vo vl"
    and es: "entries_from (data it) (unat (restarts it)) (vo + vl) (key it) = Some (e # rest)"
    by (auto simp: before_def)
  from entries_from_Cons[OF es] obtain q and sh ns vl' :: u32 where
    lt: "vo + vl < unat (restarts it)"
    and d: "DecodeEntry (data it) (vo + vl) (unat (restarts it)) = Some (q, sh, ns, vl')"
    and sh: "unat sh \<le> length (key it)"
    and b: "q + unat ns + unat vl' \<le> unat (restarts it)"
    and e: "e = \<lparr>e_off = vo + vl,
                   e_key = take (unat sh) (key it) @ take (unat ns) (drop q (data it)),
                   e_voff = q + unat ns, e_vlen = unat vl'\<rparr>"
    by blast
  have u: "unat (of_nat (vo + vl) :: u32) = vo + vl"
    by (rule unat_of_nat_u32) (use lt unat_u32_less[of "restarts it"] in simp)
  from b assms(2) have rb: "read_bytes (data it) q (unat ns) = Inr (take (unat ns) (drop q (data it)))"
    by (simp add: read_bytes_def)
  let ?it1 = "it\<lparr>current := of_nat (vo + vl),
                  key := take (unat sh) (key it) @ take (unat ns) (drop q (data it)),
                  val := Slice (q + unat ns) (unat vl')\<rparr>"
  from ParseNextKey_restart_result[of ?it1] obtain ri where
    r: "ParseNextKey_restart ?it1 = Inr (?it1\<lparr>restart_index := ri\<rparr>)"
    and rb': "restart_index it < num_restarts it \<longrightarrow> ri < num_restarts it"
    by auto
  have "ParseNextKey it = Inr (?it1\<lparr>restart_index := ri\<rparr>, True)"
    using v u lt d sh rb r
    by (simp add: ParseNextKey_def NextEntryOffset_def Let_def)
  with e rb' show ?thesis by auto
qed

lemma before_after_entry:
  assumes "before it (e # rest)"
  shows "before (it\<lparr>current := c, key := e_key e, val := Slice (e_voff e) (e_vlen e),
                   restart_index := ri\<rparr>) rest"
proof -
  from assms obtain vo vl where
    es: "entries_from (data it) (unat (restarts it)) (vo + vl) (key it) = Some (e # rest)"
    by (auto simp: before_def)
  from entries_from_Cons[OF es] obtain q and sh ns vl' :: u32 where
    "e = \<lparr>e_off = vo + vl,
                   e_key = take (unat sh) (key it) @ take (unat ns) (drop q (data it)),
                   e_voff = q + unat ns, e_vlen = unat vl'\<rparr>"
    "entries_from (data it) (unat (restarts it)) (q + unat ns + unat vl') (e_key e) = Some rest"
    by blast
  then show ?thesis by (simp add: before_def)
qed

text \<open>The linear search of \<^verbatim>\<open>Seek\<close> stops on the first entry that is not smaller than
  the target.\<close>

lemma Seek_linear_before:
  assumes "unat (restarts it) \<le> length (data it)"
  shows "before it es \<Longrightarrow>
     \<exists>it'. Seek_linear target it = Inr it'
       \<and> status it' = status it \<and> restarts it' = restarts it
       \<and> (case dropWhile (\<lambda>e. Compare it (e_key e) target < 0) es of
             [] \<Rightarrow> \<not> Valid it'
           | e # rest \<Rightarrow> positioned it' e)"
  using assms
proof (induction es arbitrary: it)
  case Nil
  from ParseNextKey_at_end[OF Nil.prems(1)] show ?case
    by (subst Seek_linear.simps) (simp add: Valid_def)
next
  case (Cons e rest)
  from ParseNextKey_at_entry[OF Cons.prems] obtain ri where
    p: "ParseNextKey it = Inr (it\<lparr>current := of_nat (e_off e), key := e_key e,
                         val := Slice (e_voff e) (e_vlen e), restart_index := ri\<rparr>, True)"
    by blast
  let ?it1 = "it\<lparr>current := of_nat (e_off e), key := e_key e,
                         val := Slice (e_voff e) (e_vlen e), restart_index := ri\<rparr>"
  show ?case
  proof (cases "Compare it (e_key e) target < 0")
    case False
    with p have "Seek_linear target it = Inr ?it1"
      by (subst Seek_linear.simps) (simp add: Compare_def)
    with False show ?thesis by (simp add: positioned_def)
  next
    case True
    with p have s: "Seek_linear target it = Seek_linear target ?it1"
      by (subst Seek_linear.simps) (simp add: Compare_def)
    have b: "before ?it1 rest" by (rule before_after_entry[OF Cons.prems(1)])
    have g: "unat (restarts ?it1) \<le> length (data ?it1)" using Cons.prems(2) by simp
    from Cons.IH[OF b g] s True show ?thesis by (simp add: Compare_def)
  qed
qed

text \<open>The loop \<^verbatim>\<open>while (ParseNextKey() && NextEntryOffset() < bound)\<close> stops on the first
  entry that ends at \<open>bound\<close> or behind it.\<close>

lemma ParseNextKey_until_before:
  assumes "unat (restarts it) \<le> length (data it)" and "unat bound \<le> unat (restarts it)"
  shows "before it es \<Longrightarrow> es \<noteq> [] \<Longrightarrow>
     \<exists>it' e rest ri. ParseNextKey_until bound it = Inr it'
       \<and> dropWhile (\<lambda>e. e_voff e + e_vlen e < unat bound) es = e # rest
       \<and> it' = it\<lparr>current := of_nat (e_off e), key := e_key e,
                    val := Slice (e_voff e) (e_vlen e), restart_index := ri\<rparr>
       \<and> (restart_index it < num_restarts it \<longrightarrow> ri < num_restarts it)"
  using assms
proof (induction es arbitrary: it)
  case Nil
  then show ?case by simp
next
  case (Cons e rest)
  from ParseNextKey_at_entry[OF Cons.prems(1,3)] obtain ri where
    p: "ParseNextKey it = Inr (it\<lparr>current := of_nat (e_off e), key := e_key e,
                         val := Slice (e_voff e) (e_vlen e), restart_index := ri\<rparr>, True)"
    and ri: "restart_index it < num_restarts it \<longrightarrow> ri < num_restarts it"
    by blast
  let ?it1 = "it\<lparr>current := of_nat (e_off e), key := e_key e,
                         val := Slice (e_voff e) (e_vlen e), restart_index := ri\<rparr>"
  have b: "before ?it1 rest" by (rule before_after_entry[OF Cons.prems(1)])
  then have es: "entries_from (data it) (unat (restarts it)) (e_voff e + e_vlen e) (e_key e) = Some rest"
    by (simp add: before_def)
  have u: "unat (of_nat (e_voff e + e_vlen e) :: u32) = e_voff e + e_vlen e"
    by (rule unat_of_nat_u32) (use entries_from_le[OF es] unat_u32_less[of "restarts it"] in simp)
  have n: "NextEntryOffset ?it1 = Inr (of_nat (e_voff e + e_vlen e))"
    by (simp add: NextEntryOffset_def)
  show ?case
  proof (cases "e_voff e + e_vlen e < unat bound")
    case False
    with u have "\<not> (of_nat (e_voff e + e_vlen e) :: u32) < bound"
      by (simp add: word_less_nat_alt)
    with p n have "ParseNextKey_until bound it = Inr ?it1"
      by (subst ParseNextKey_until.simps) simp
    with False ri show ?thesis by auto
  next
    case True
    with u have "(of_nat (e_voff e + e_vlen e) :: u32) < bound"
      by (simp add: word_less_nat_alt)
    with p n have s: "ParseNextKey_until bound it = ParseNextKey_until bound ?it1"
      by (subst ParseNextKey_until.simps) simp
    have ne: "rest \<noteq> []"
    proof
      assume "rest = []"
      with es have "e_voff e + e_vlen e = unat (restarts it)" by (simp add: entries_from_Nil)
      with True Cons.prems(4) show False by simp
    qed
    have g: "unat (restarts ?it1) \<le> length (data ?it1)" "unat bound \<le> unat (restarts ?it1)"
      using Cons.prems(3,4) by simp_all
    from Cons.IH[OF b ne g] obtain it' e' rest' ri' where
      "ParseNextKey_until bound ?it1 = Inr it'"
      "dropWhile (\<lambda>e. e_voff e + e_vlen e < unat bound) rest = e' # rest'"
      "it' = ?it1\<lparr>current := of_nat (e_off e'), key := e_key e',
                    val := Slice (e_voff e') (e_vlen e'), restart_index := ri'\<rparr>"
      "restart_index ?it1 < num_restarts ?it1 \<longrightarrow> ri' < num_restarts ?it1"
      by blast
    with s True ri show ?thesis by auto
  qed
qed

lemma well_formed_geometry:
  assumes "well_formed it"
  shows "unat (restarts it) \<le> length (data it)" and "unat (num_restarts it) < 2 ^ 30"
    and "0 < num_restarts it" and "restart_point it 0 = 0"
  using assms by (auto simp: well_formed_def)

lemma well_formed_restart_entry:
  assumes "well_formed it" and "block_entries it = Some es" and "es \<noteq> []"
    and "j < num_restarts it"
  shows "restart_entry it es j"
proof -
  from assms(1-3) have "list_all (\<lambda>j. restart_entry it es (of_nat j)) [0..<unat (num_restarts it)]"
    by (simp add: well_formed_def)
  moreover from assms(4) have "unat j \<in> set [0..<unat (num_restarts it)]"
    by (simp add: word_less_nat_alt)
  ultimately have "restart_entry it es (of_nat (unat j))"
    unfolding list_all_iff by (rule bspec)
  then show ?thesis by simp
qed

lemma restart_point_entry:
  assumes "well_formed it" and "block_entries it = Some es" and "es \<noteq> []"
    and "j < num_restarts it"
  shows "\<exists>m q ns vl. m < length es
           \<and> e_off (es ! m) = unat (restart_point it j)
           \<and> DecodeEntry (data it) (unat (restart_point it j)) (unat (restarts it))
               = Some (q, 0, ns, vl)
           \<and> q + unat ns \<le> length (data it)
           \<and> e_key (es ! m) = restart_key it j
           \<and> entries_from (data it) (unat (restarts it)) (unat (restart_point it j)) []
               = Some (drop m es)"
proof -
  let ?d = "data it" and ?limit = "unat (restarts it)" and ?rp = "unat (restart_point it j)"
  from well_formed_restart_entry[OF assms] have
    ex: "list_ex (\<lambda>e. e_off e = ?rp) es"
    and de: "case DecodeEntry ?d ?rp ?limit of None \<Rightarrow> False
             | Some (q, shared, non_shared, value_length) \<Rightarrow> shared = 0"
    by (simp_all add: restart_entry_def)
  from ex obtain m where m: "m < length es" "e_off (es ! m) = ?rp"
    by (auto simp: list_ex_iff in_set_conv_nth)
  from de obtain q ns vl where d: "DecodeEntry ?d ?rp ?limit = Some (q, 0, ns, vl)"
    by (auto split: option.splits)
  from assms(2) have all: "entries_from ?d ?limit 0 [] = Some es" by (simp add: block_entries_def)
  from entries_from_drop[OF all m(1)] m(2)
  have "entries_from ?d ?limit ?rp (if m = 0 then [] else e_key (es ! (m - 1))) = Some (drop m es)"
    by simp
  with entries_from_shared_0[OF d, of "if m = 0 then [] else e_key (es ! (m - 1))"]
  have dr: "entries_from ?d ?limit ?rp [] = Some (drop m es)"
    by (simp only:)
  from m(1) have "drop m es = es ! m # drop (Suc m) es" by (simp add: Cons_nth_drop_Suc)
  with dr have "entries_from ?d ?limit ?rp [] = Some (es ! m # drop (Suc m) es)" by simp
  from entries_from_Cons[OF this] d have
    k: "e_key (es ! m) = take (unat ns) (drop q ?d)" and b: "q + unat ns + unat vl \<le> ?limit"
    by auto
  from k d have rk: "e_key (es ! m) = restart_key it j" by (simp add: restart_key_def)
  from b well_formed_geometry(1)[OF assms(1)] have "q + unat ns \<le> length ?d" by simp
  with m d rk dr show ?thesis by blast
qed

lemma midpoint:
  fixes left right :: u32
  assumes "left < right" and "unat right < 2 ^ 30"
  shows "unat ((left + right + 1) div 2) = (unat left + unat right + 1) div 2"
    and "left < (left + right + 1) div 2" and "(left + right + 1) div 2 \<le> right"
    and "left \<le> (left + right + 1) div 2 - 1" and "(left + right + 1) div 2 - 1 < right"
    and "unat ((left + right + 1) div 2 - 1) = (unat left + unat right + 1) div 2 - 1"
proof -
  from assms have lr: "unat left < unat right" by (simp add: word_less_nat_alt)
  with assms(2) have s: "unat left + unat right + 1 < 2 ^ 32" by simp
  have "unat (left + right) = unat left + unat right"
    using s by (simp add: unat_word_ariths)
  then have "unat (left + right + 1) = unat left + unat right + 1"
    using s by (simp add: unat_word_ariths)
  then show m: "unat ((left + right + 1) div 2) = (unat left + unat right + 1) div 2"
    by (simp add: unat_div)
  from m lr show lt: "left < (left + right + 1) div 2" by (simp add: word_less_nat_alt)
  from m lr show "(left + right + 1) div 2 \<le> right" by (simp add: word_le_nat_alt)
  from lt have nz: "(left + right + 1) div 2 \<noteq> 0" by (auto simp: word_less_nat_alt)
  then have p: "unat ((left + right + 1) div 2 - 1) = unat ((left + right + 1) div 2) - 1"
    by (rule unat_minus_one)
  with m show "unat ((left + right + 1) div 2 - 1) = (unat left + unat right + 1) div 2 - 1"
    by simp
  from p m lr show "left \<le> (left + right + 1) div 2 - 1" by (simp add: word_le_nat_alt)
  from p m lr show "(left + right + 1) div 2 - 1 < right" by (simp add: word_less_nat_alt)
qed

text \<open>On a well-formed block the binary search returns a restart point that is the first
  one or has a key smaller than the target.\<close>

lemma Seek_search_well_formed:
  assumes "well_formed it" and "block_entries it = Some es" and "es \<noteq> []"
  shows "left \<le> right \<Longrightarrow> right < num_restarts it \<Longrightarrow>
     \<exists>l. Seek_search target it left right = Some (Inr (Some l))
        \<and> l < num_restarts it
        \<and> (l = left \<or> Compare it (restart_key it l) target < 0)"
proof (induction "unat right - unat left" arbitrary: left right rule: less_induct)
  case less
  show ?case
  proof (cases "left < right")
    case False
    then have "Seek_search target it left right = Some (Inr (Some left))"
      by (subst Seek_search.simps) simp
    with less.prems show ?thesis by auto
  next
    case True
    let ?mid = "(left + right + 1) div 2"
    from less.prems(2) well_formed_geometry(2)[OF assms(1)] have r30: "unat right < 2 ^ 30"
      by (simp add: word_less_nat_alt)
    note M = midpoint[OF True r30]
    from M(3) less.prems(2) have mid: "?mid < num_restarts it" by simp
    then have g: "GetRestartPoint it ?mid = Inr (restart_point it ?mid)"
      by (rule GetRestartPoint_eq)
    from restart_point_entry[OF assms mid] obtain q ns vl where
      d: "DecodeEntry (data it) (unat (restart_point it ?mid)) (unat (restarts it))
               = Some (q, 0, ns, vl)"
      and b: "q + unat ns \<le> length (data it)"
      by blast
    from d have rk: "restart_key it ?mid = take (unat ns) (drop q (data it))"
      by (simp add: restart_key_def)
    from b have rb: "Compare_slice it q (unat ns) target
                       = Inr (Compare it (restart_key it ?mid) target)"
      by (simp add: Compare_slice_def rk)
    show ?thesis
    proof (cases "Compare it (restart_key it ?mid) target < 0")
      case lt: True
      with True g d rb have s: "Seek_search target it left right = Seek_search target it ?mid right"
        by (subst Seek_search.simps) simp
      from M(1,2,3) True have "unat right - unat ?mid < unat right - unat left"
        by (simp add: word_less_nat_alt)
      from less.hyps[OF this M(3) less.prems(2)] obtain l where
        "Seek_search target it ?mid right = Some (Inr (Some l))" "l < num_restarts it"
        "l = ?mid \<or> Compare it (restart_key it l) target < 0"
        by blast
      with s lt show ?thesis by auto
    next
      case ge: False
      with True g d rb have s: "Seek_search target it left right = Seek_search target it left (?mid - 1)"
        by (subst Seek_search.simps) simp
      from M(1,6) True have "unat (?mid - 1) - unat left < unat right - unat left"
        by (simp add: word_less_nat_alt)
      moreover from M(5) less.prems(2) have "?mid - 1 < num_restarts it" by simp
      ultimately obtain l where
        "Seek_search target it left (?mid - 1) = Some (Inr (Some l))" "l < num_restarts it"
        "l = left \<or> Compare it (restart_key it l) target < 0"
        using less.hyps[OF _ M(4)] by blast
      with s show ?thesis by auto
    qed
  qed
qed

lemma dropWhile_drop_prefix:
  assumes "\<forall>i<m. P (xs ! i)" and "m \<le> length xs"
  shows "dropWhile P xs = dropWhile P (drop m xs)"
proof -
  have "P x" if "x \<in> set (take m xs)" for x
    using that assms by (auto simp: in_set_conv_nth)
  then have "dropWhile P (take m xs @ drop m xs) = dropWhile P (drop m xs)"
    by (rule dropWhile_append2)
  then show ?thesis by (simp only: append_take_drop_id)
qed

lemma dropWhile_first:
  "dropWhile P xs = e # rest \<Longrightarrow>
   \<exists>k<length xs. xs ! k = e \<and> \<not> P e \<and> (\<forall>i<k. P (xs ! i)) \<and> rest = drop (Suc k) xs"
proof (induction xs)
  case Nil
  then show ?case by simp
next
  case (Cons x xs)
  show ?case
  proof (cases "P x")
    case False
    with Cons.prems have "x = e" "rest = xs" by simp_all
    with False show ?thesis by (intro exI[of _ 0]) simp
  next
    case True
    with Cons.prems have "dropWhile P xs = e # rest" by simp
    from Cons.IH[OF this] obtain k where
      k: "k < length xs" "xs ! k = e" "\<not> P e" "\<forall>i<k. P (xs ! i)" "rest = drop (Suc k) xs"
      by blast
    have "\<forall>i<Suc k. P ((x # xs) ! i)"
    proof (intro allI impI)
      fix i assume "i < Suc k"
      with True k(4) show "P ((x # xs) ! i)" by (cases i) simp_all
    qed
    with k show ?thesis by (intro exI[of _ "Suc k"]) simp
  qed
qed

lemma dropWhile_none:
  "dropWhile P xs = [] \<Longrightarrow> i < length xs \<Longrightarrow> P (xs ! i)"
  by (simp add: dropWhile_eq_Nil_conv)

lemma positioned_Valid:
  assumes "positioned it' e" and "e \<in> set es" and "block_entries it = Some es"
    and "restarts it' = restarts it"
  shows "Valid it'"
proof -
  from assms(3) have "entries_from (data it) (unat (restarts it)) 0 [] = Some es"
    by (simp add: block_entries_def)
  from entries_from_bounds[OF this assms(2)] have lt: "e_off e < unat (restarts it)" by simp
  then have "unat (of_nat (e_off e) :: u32) = e_off e"
    using unat_u32_less[of "restarts it"] by (simp add: unat_of_nat_u32)
  with lt assms(1,4) show ?thesis
    by (simp add: positioned_def Valid_def word_less_nat_alt)
qed

lemma Seek_search_no_entries:
  assumes "well_formed it" and "block_entries it = Some []"
  shows "Seek_search target it 0 (num_restarts it - 1) = Some (Inr (Some 0))"
proof -
  from assms have "num_restarts it = 1" by (simp add: well_formed_def)
  then show ?thesis by (subst Seek_search.simps) simp
qed

lemma Seek_dropWhile:
  assumes wf: "well_formed it" and es: "block_entries it = Some es"
    and so: "sorted_entries it es" and co: "comparator_ok (comparator it)"
  shows "\<exists>it'. Seek target it = Some (Inr it')
           \<and> status it' = status it \<and> restarts it' = restarts it
           \<and> (case dropWhile (\<lambda>e. Compare it (e_key e) target < 0) es of
                 [] \<Rightarrow> \<not> Valid it'
               | e # rest \<Rightarrow> positioned it' e)"
proof -
  let ?P = "\<lambda>e. Compare it (e_key e) target < 0"
  note G = well_formed_geometry[OF wf]
  from G(3) have n1: "num_restarts it - 1 < num_restarts it"
    by (simp add: word_less_nat_alt unat_pred_less word_neq_0_conv)
  have "\<exists>l. Seek_search target it 0 (num_restarts it - 1) = Some (Inr (Some l))
          \<and> l < num_restarts it \<and> (l = 0 \<or> Compare it (restart_key it l) target < 0)"
  proof (cases "es = []")
    case True
    with Seek_search_no_entries[OF wf] es G(3) show ?thesis by auto
  next
    case False
    from Seek_search_well_formed[OF wf es False _ n1, of 0 target] show ?thesis by simp
  qed
  then obtain l where s: "Seek_search target it 0 (num_restarts it - 1) = Some (Inr (Some l))"
    and l: "l < num_restarts it"
    and inv: "l = 0 \<or> Compare it (restart_key it l) target < 0"
    by blast
  let ?it2 = "it\<lparr>key := [], restart_index := l, val := Slice (unat (restart_point it l)) 0\<rparr>"
  from l have r: "SeekToRestartPoint l it = Inr ?it2"
    by (simp add: SeekToRestartPoint_def GetRestartPoint_eq)
  from s r have sk: "Seek target it = Some (Seek_linear target ?it2)"
    by (simp add: Seek_def)
  have "\<exists>es'. before ?it2 es' \<and> dropWhile ?P es = dropWhile ?P es'"
  proof (cases "l = 0")
    case True
    with G(4) es have "before ?it2 es" by (simp add: before_def block_entries_def)
    then show ?thesis by blast
  next
    case False
    with inv have lt: "Compare it (restart_key it l) target < 0" by simp
    have ne: "es \<noteq> []"
    proof
      assume "es = []"
      with wf es have "num_restarts it = 1" by (simp add: well_formed_def)
      with l False show False by (simp add: word_less_nat_alt unat_eq_zero)
    qed
    from restart_point_entry[OF wf es ne l] obtain m where
      m: "m < length es" and k: "e_key (es ! m) = restart_key it l"
      and dr: "entries_from (data it) (unat (restarts it)) (unat (restart_point it l)) []
               = Some (drop m es)"
      by blast
    from dr have b: "before ?it2 (drop m es)" by (simp add: before_def)
    have "\<forall>i<m. ?P (es ! i)"
    proof (intro allI impI)
      fix i assume i: "i < m"
      with so m have "Compare it (e_key (es ! i)) (e_key (es ! m)) < 0"
        by (simp add: sorted_entries_def sorted_wrt_iff_nth_less)
      with lt k co show "?P (es ! i)"
        unfolding comparator_ok_def Compare_def by metis
    qed
    with m have "dropWhile ?P es = dropWhile ?P (drop m es)"
      by (intro dropWhile_drop_prefix) simp_all
    with b show ?thesis by blast
  qed
  then obtain es' where b: "before ?it2 es'" and dw: "dropWhile ?P es = dropWhile ?P es'"
    by blast
  have g: "unat (restarts ?it2) \<le> length (data ?it2)" using G(1) by simp
  from Seek_linear_before[OF g b, of target] obtain it' where
    "Seek_linear target ?it2 = Inr it'" "status it' = status ?it2" "restarts it' = restarts ?it2"
    "case dropWhile (\<lambda>e. Compare ?it2 (e_key e) target < 0) es' of
             [] \<Rightarrow> \<not> Valid it' | e # rest \<Rightarrow> positioned it' e"
    by blast
  with sk dw show ?thesis by (simp add: Compare_def)
qed

subsection \<open>Seek on a well-formed block\<close>

lemma bytewise_refl: "bytewise a a = 0"
  by (induction a) simp_all

lemma bytewise_trans: "bytewise a b < 0 \<Longrightarrow> bytewise b c < 0 \<Longrightarrow> bytewise a c < 0"
proof (induction a b arbitrary: c rule: bytewise.induct)
  case 1
  then show ?case by simp
next
  case (2 y ys)
  then show ?case by (cases c) simp_all
next
  case (3 x xs)
  then show ?case by simp
next
  case (4 x xs y ys)
  show ?case
  proof (cases c)
    case Nil
    with "4.prems" show ?thesis by simp
  next
    case (Cons z zs)
    with "4.prems" "4.IH"[of zs] show ?thesis
      by (auto split: if_splits)
  qed
qed

lemma comparator_ok_bytewise: "comparator_ok BytewiseComparator"
  unfolding comparator_ok_def BytewiseComparator_def
  using bytewise_refl bytewise_trans by auto

text \<open>
  C1. On a well-formed block whose keys are strictly increasing under the comparator (a
  comparator that is reflexive and whose \<open><\<close> is transitive), \<^verbatim>\<open>Seek(target)\<close> returns, for
  every target and from every state of the cursor, with the status left as it was, and
  leaves the cursor on the first entry whose key compares \<open>\<ge>\<close> target (every entry before
  it compares \<open><\<close> target), or Invalid when every entry compares \<open><\<close> target. When the
  target is the key of an entry, the cursor is on that entry.
\<close>

theorem Seek_first_not_smaller:
  assumes "well_formed it" and "block_entries it = Some es"
    and "sorted_entries it es" and "comparator_ok (comparator it)"
  shows "\<exists>it'. Seek target it = Some (Inr it') \<and> status_of it' = status_of it
          \<and> ((\<exists>k<length es. Valid it' \<and> positioned it' (es ! k)
                  \<and> 0 \<le> Compare it (e_key (es ! k)) target
                  \<and> (\<forall>i<k. Compare it (e_key (es ! i)) target < 0))
              \<or> (\<not> Valid it' \<and> (\<forall>i<length es. Compare it (e_key (es ! i)) target < 0)))
          \<and> (\<forall>k<length es. target = e_key (es ! k) \<longrightarrow> Valid it' \<and> positioned it' (es ! k))"
proof -
  let ?P = "\<lambda>e. Compare it (e_key e) target < 0"
  from Seek_dropWhile[OF assms, of target] obtain it' where
    s: "Seek target it = Some (Inr it')" and st: "status it' = status it"
    and rs: "restarts it' = restarts it"
    and dw: "case dropWhile ?P es of [] \<Rightarrow> \<not> Valid it' | e # rest \<Rightarrow> positioned it' e"
    by blast
  have main: "(\<exists>k<length es. Valid it' \<and> positioned it' (es ! k)
                  \<and> 0 \<le> Compare it (e_key (es ! k)) target
                  \<and> (\<forall>i<k. Compare it (e_key (es ! i)) target < 0))
              \<or> (\<not> Valid it' \<and> (\<forall>i<length es. Compare it (e_key (es ! i)) target < 0))"
  proof (cases "dropWhile ?P es")
    case Nil
    with dw have "\<not> Valid it'" by simp
    moreover from Nil have "\<forall>i<length es. ?P (es ! i)" by (auto dest: dropWhile_none)
    ultimately show ?thesis by blast
  next
    case (Cons e rest)
    from dropWhile_first[OF Cons] obtain k where
      k: "k < length es" "es ! k = e" "\<not> ?P e" "\<forall>i<k. ?P (es ! i)"
      by blast
    from Cons dw have p: "positioned it' e" by simp
    from k(1,2) have "e \<in> set es" by auto
    from positioned_Valid[OF p this assms(2) rs] have "Valid it'" .
    with k p show ?thesis by (intro disjI1 exI[of _ k]) auto
  qed
  have eq: "Valid it' \<and> positioned it' (es ! k)" if k: "k < length es" and t: "target = e_key (es ! k)" for k
  proof -
    from assms(4) t have z: "\<not> ?P (es ! k)"
      by (simp add: comparator_ok_def Compare_def)
    have sm: "?P (es ! i)" if "i < k" for i
      using that k t assms(3) by (simp add: sorted_entries_def sorted_wrt_iff_nth_less)
    from main show ?thesis
    proof
      assume "\<exists>k'<length es. Valid it' \<and> positioned it' (es ! k')
                  \<and> 0 \<le> Compare it (e_key (es ! k')) target
                  \<and> (\<forall>i<k'. Compare it (e_key (es ! i)) target < 0)"
      then obtain k' where k': "k' < length es" "Valid it'" "positioned it' (es ! k')"
        "0 \<le> Compare it (e_key (es ! k')) target" "\<forall>i<k'. ?P (es ! i)"
        by blast
      have "k' = k"
      proof (rule ccontr)
        assume "k' \<noteq> k"
        then consider "k' < k" | "k < k'" by linarith
        then show False
        proof cases
          case 1
          from sm[OF 1] k'(4) show False by simp
        next
          case 2
          with k'(5) z show False by simp
        qed
      qed
      with k' show ?thesis by simp
    next
      assume "\<not> Valid it' \<and> (\<forall>i<length es. Compare it (e_key (es ! i)) target < 0)"
      with k z show ?thesis by simp
    qed
  qed
  from s st main eq show ?thesis
    by (intro exI[of _ it']) (simp add: status_of_def)
qed

lemmas entries_eval = block_entries_def entries_from.simps DecodeEntry_def DecodeEntry_lengths_def
  GetVarint32Ptr_def GetVarint32Ptr_loop.simps Let_def

lemma two_run_block_entries: "block_entries two_run_iter = Some two_run_entries"
  by (simp add: entries_eval two_run_entries_def two_run_iter_def two_run_block_def)

lemmas restart_eval = restart_entry_def restart_point_def DecodeFixed32_def
  DecodeEntry_def DecodeEntry_lengths_def GetVarint32Ptr_def GetVarint32Ptr_loop.simps

lemma two_run_well_formed: "well_formed two_run_iter"
proof -
  have "unat (num_restarts two_run_iter) = Suc (Suc 0)"
    by (simp add: two_run_iter_def)
  then have up: "[0..<unat (num_restarts two_run_iter)] = [0, 1]"
    by simp
  have r0: "restart_entry two_run_iter two_run_entries (of_nat 0)"
    by (simp add: restart_eval two_run_entries_def two_run_iter_def two_run_block_def)
  have r1: "restart_entry two_run_iter two_run_entries (of_nat 1)"
    by (simp add: restart_eval two_run_entries_def two_run_iter_def two_run_block_def)
  have ne: "two_run_entries \<noteq> []" by (simp add: two_run_entries_def)
  have g: "length (data two_run_iter) < 2 ^ 32
     \<and> unat (restarts two_run_iter) + 4 * (unat (num_restarts two_run_iter) + 1)
         = length (data two_run_iter)
     \<and> 0 < num_restarts two_run_iter \<and> restart_point two_run_iter 0 = 0"
    by (simp add: restart_point_def DecodeFixed32_def two_run_iter_def two_run_block_def)
  from g up r0 r1 ne show ?thesis
    unfolding well_formed_def two_run_block_entries by simp
qed

lemma two_run_sorted: "sorted_entries two_run_iter two_run_entries"
  by (simp add: sorted_entries_def two_run_entries_def two_run_iter_def Compare_def
      BytewiseComparator_def)

lemmas seek_eval = eval_defs Seek_def Seek_search.simps Seek_linear.simps ParseNextKey_until.simps
  Prev_scan.simps

theorem Seek_first_not_smaller_witness:
  "well_formed two_run_iter \<and> block_entries two_run_iter = Some two_run_entries
   \<and> sorted_entries two_run_iter two_run_entries \<and> comparator_ok (comparator two_run_iter)
   \<and> (\<exists>it'. Seek [0x61, 0x7a] two_run_iter = Some (Inr it') \<and> status_of it' = OK
          \<and> Valid it' \<and> positioned it' (two_run_entries ! 2)
          \<and> key_of it' = Inr [0x62, 0x61] \<and> value_of it' = Inr (Slice 16 1))
   \<and> (\<exists>it'. Seek [0x61, 0x62] two_run_iter = Some (Inr it') \<and> positioned it' (two_run_entries ! 1))
   \<and> (\<exists>it'. Seek [0x7a] two_run_iter = Some (Inr it') \<and> \<not> Valid it' \<and> status_of it' = OK)"
proof -
  have co: "comparator_ok (comparator two_run_iter)"
    by (simp add: two_run_iter_def comparator_ok_bytewise)
  note T = Seek_first_not_smaller[OF two_run_well_formed two_run_block_entries two_run_sorted co]
  from T[of "[0x61, 0x7a]"] obtain a where
    a: "Seek [0x61, 0x7a] two_run_iter = Some (Inr a)" "status_of a = status_of two_run_iter"
    by blast
  from T[of "[0x61, 0x62]"] obtain b where
    b: "Seek [0x61, 0x62] two_run_iter = Some (Inr b)"
    and bk: "\<forall>k<length two_run_entries. [0x61, 0x62] = e_key (two_run_entries ! k)
           \<longrightarrow> Valid b \<and> positioned b (two_run_entries ! k)"
    by blast
  have "1 < length two_run_entries \<and> [0x61, 0x62] = e_key (two_run_entries ! 1)"
    by (simp add: two_run_entries_def)
  with bk have b1: "positioned b (two_run_entries ! 1)"
    by blast
  from T[of "[0x7a]"] obtain c where
    c: "Seek [0x7a] two_run_iter = Some (Inr c)" "status_of c = status_of two_run_iter"
    by blast
  have ea: "Seek [0x61, 0x7a] two_run_iter
      = Some (Inr (two_run_iter\<lparr>current := 11, restart_index := 0, key := [0x62, 0x61],
                                val := Slice 16 1\<rparr>))"
    by (simp add: seek_eval two_run_iter_def two_run_block_def)
  have ec: "Seek [0x7a] two_run_iter
      = Some (Inr (two_run_iter\<lparr>current := 22, restart_index := 2, key := [0x62, 0x62],
                                val := Slice 21 1\<rparr>))"
    by (simp add: seek_eval two_run_iter_def two_run_block_def)
  from a ea have a': "a = two_run_iter\<lparr>current := 11, restart_index := 0, key := [0x62, 0x61],
                                val := Slice 16 1\<rparr>" by simp
  from c ec have c': "c = two_run_iter\<lparr>current := 22, restart_index := 2, key := [0x62, 0x62],
                                val := Slice 21 1\<rparr>" by simp
  have pa: "Valid a \<and> positioned a (two_run_entries ! 2) \<and> status_of a = OK
            \<and> key_of a = Inr [0x62, 0x61] \<and> value_of a = Inr (Slice 16 1)"
    unfolding a'
    by (simp add: Valid_def positioned_def two_run_entries_def two_run_iter_def status_of_def
        key_of_def value_of_def)
  have pc: "\<not> Valid c \<and> status_of c = OK"
    unfolding c' by (simp add: Valid_def two_run_iter_def status_of_def)
  from two_run_well_formed two_run_block_entries two_run_sorted co a pa b b1 c pc
  show ?thesis by blast
qed

subsection \<open>Prev on a well-formed block\<close>

lemma entries_until:
  assumes all: "entries_from d limit 0 [] = Some es" and mt: "m \<le> t" and t: "t < length es"
    and bound: "bound = (if Suc t < length es then e_off (es ! Suc t) else limit)"
  shows "dropWhile (\<lambda>e. e_voff e + e_vlen e < bound) (drop m es) = es ! t # drop (Suc t) es"
proof -
  let ?Q = "\<lambda>e. e_voff e + e_vlen e < bound"
  have end_t: "e_voff (es ! t) + e_vlen (es ! t) = bound"
    using entries_from_next[OF all t] bound by simp
  have below: "?Q (es ! j)" if j: "j < t" for j
  proof -
    from j t have sj: "Suc j < length es" by simp
    with entries_from_next[OF all, of j] have e: "e_voff (es ! j) + e_vlen (es ! j) = e_off (es ! Suc j)"
      by simp
    show ?thesis
    proof (cases "Suc t < length es")
      case True
      from entries_from_off_mono(2)[OF all _ True, of "Suc j"] j
      have "e_off (es ! Suc j) < e_off (es ! Suc t)" by simp
      with e bound True show ?thesis by simp
    next
      case False
      from entries_from_bounds[OF all, of "es ! Suc j"] sj
      have "e_off (es ! Suc j) < limit" by simp
      with e bound False show ?thesis by simp
    qed
  qed
  have "\<forall>i<t - m. ?Q (drop m es ! i)"
  proof (intro allI impI)
    fix i assume i: "i < t - m"
    with t have "drop m es ! i = es ! (m + i)" by simp
    with below[of "m + i"] i show "?Q (drop m es ! i)" by simp
  qed
  moreover from mt t have "t - m \<le> length (drop m es)" by simp
  ultimately have "dropWhile ?Q (drop m es) = dropWhile ?Q (drop (t - m) (drop m es))"
    by (rule dropWhile_drop_prefix)
  also from mt have "drop (t - m) (drop m es) = drop t es" by simp
  also from t have "drop t es = es ! t # drop (Suc t) es" by (simp add: Cons_nth_drop_Suc)
  also from end_t have "dropWhile ?Q (es ! t # drop (Suc t) es) = es ! t # drop (Suc t) es"
    by simp
  finally show ?thesis .
qed

lemma Prev_scan_finds:
  "restart_index it < num_restarts it \<Longrightarrow> restart_point it 0 < original \<Longrightarrow>
   \<exists>j. Prev_scan original it = Inr (it\<lparr>restart_index := j\<rparr>, True)
      \<and> j < num_restarts it \<and> restart_point it j < original"
proof (induction original it rule: Prev_scan.induct)
  case (1 original it)
  from "1.prems"(1) have g: "GetRestartPoint it (restart_index it)
      = Inr (restart_point it (restart_index it))"
    by (rule GetRestartPoint_eq)
  show ?case
  proof (cases "restart_point it (restart_index it) \<ge> original")
    case False
    with g have "Prev_scan original it = Inr (it, True)"
      by (subst Prev_scan.simps) simp
    with False "1.prems"(1) show ?thesis
      by (intro exI[of _ "restart_index it"]) simp
  next
    case True
    have nz: "restart_index it \<noteq> 0"
    proof
      assume "restart_index it = 0"
      with True "1.prems"(2) show False by simp
    qed
    let ?it' = "it\<lparr>restart_index := restart_index it - 1\<rparr>"
    from nz have "restart_index it - 1 < restart_index it"
      by (simp add: word_less_nat_alt unat_pred_less)
    with "1.prems"(1) have a: "restart_index ?it' < num_restarts ?it'" by simp
    have b: "restart_point ?it' 0 < original" using "1.prems"(2) by simp
    from "1.IH"[OF g True nz a b] obtain j where
      "Prev_scan original ?it' = Inr (?it'\<lparr>restart_index := j\<rparr>, True)"
      "j < num_restarts it" "restart_point it j < original"
      by auto
    with g True nz show ?thesis
      by (subst Prev_scan.simps) auto
  qed
qed

lemma positioned_current:
  assumes "positioned it e" and "e \<in> set es" and "block_entries it = Some es"
  shows "unat (current it) = e_off e" and "e_voff e + e_vlen e \<le> unat (restarts it)"
proof -
  from assms(3) have "entries_from (data it) (unat (restarts it)) 0 [] = Some es"
    by (simp add: block_entries_def)
  from entries_from_bounds[OF this assms(2)]
  have b: "e_voff e + e_vlen e \<le> unat (restarts it)" and lt: "e_off e < unat (restarts it)"
    by simp_all
  from b show "e_voff e + e_vlen e \<le> unat (restarts it)" .
  have "unat (of_nat (e_off e) :: u32) = e_off e"
    by (rule unat_of_nat_u32) (use lt unat_u32_less[of "restarts it"] in simp)
  with assms(1) show "unat (current it) = e_off e" by (simp add: positioned_def)
qed

text \<open>\<^verbatim>\<open>Prev\<close> on the \<open>k\<close>-th entry of a well-formed block.\<close>

lemma Prev_on_entry:
  assumes wf: "well_formed it" and es: "block_entries it = Some es" and k: "k < length es"
    and pos: "positioned it (es ! k)" and ri: "restart_index it < num_restarts it"
  shows "\<exists>it'. Prev it = Inr it' \<and> status it' = status it \<and> same_block it' it
           \<and> (if k = 0 then \<not> Valid it'
               else Valid it' \<and> positioned it' (es ! (k - 1))
                    \<and> restart_index it' < num_restarts it')"
proof -
  note G = well_formed_geometry[OF wf]
  from es have all: "entries_from (data it) (unat (restarts it)) 0 [] = Some es"
    by (simp add: block_entries_def)
  from k have mem: "es ! k \<in> set es" by simp
  from positioned_Valid[OF pos mem es refl] have v: "Valid it" .
  note C = positioned_current[OF pos mem es]
  from k have ne: "es \<noteq> []" by auto
  then obtain e0 rest0 where es0: "es = e0 # rest0" by (cases es) auto
  with entries_from_first[of "data it" "unat (restarts it)" 0 "[]" e0 rest0] all
  have off0: "e_off (es ! 0) = 0" by simp
  show ?thesis
  proof (cases "k = 0")
    case True
    with C(1) off0 have "unat (current it) = 0" by simp
    then have "current it = 0" by (simp add: unat_eq_zero)
    then have "\<forall>j \<le> restart_index it. current it \<le> restart_point it j" by simp
    from Prev_scan_none[OF ri this] v True show ?thesis
      by (simp add: Prev_def Valid_def same_block_def)
  next
    case False
    then have k0: "0 < k" by simp
    from entries_from_off_mono(2)[OF all k0 k] off0 have "0 < e_off (es ! k)" by simp
    with C(1) G(4) have "restart_point it 0 < current it" by (simp add: word_less_nat_alt)
    from Prev_scan_finds[OF ri this] obtain j where
      s: "Prev_scan (current it) it = Inr (it\<lparr>restart_index := j\<rparr>, True)"
      and j: "j < num_restarts it" and rj: "restart_point it j < current it"
      by blast
    let ?it2 = "it\<lparr>key := [], restart_index := j, val := Slice (unat (restart_point it j)) 0\<rparr>"
    from j have r: "SeekToRestartPoint j (it\<lparr>restart_index := j\<rparr>) = Inr ?it2"
      by (simp add: SeekToRestartPoint_def GetRestartPoint_eq)
    from v s r have P: "Prev it = ParseNextKey_until (current it) ?it2"
      by (simp add: Prev_def)
    from restart_point_entry[OF wf es ne j] obtain m where
      m: "m < length es" and om: "e_off (es ! m) = unat (restart_point it j)"
      and dr: "entries_from (data it) (unat (restarts it)) (unat (restart_point it j)) []
               = Some (drop m es)"
      by blast
    from dr have b: "before ?it2 (drop m es)" by (simp add: before_def)
    from m have dne: "drop m es \<noteq> []" by simp
    have mk: "m < k"
    proof (rule ccontr)
      assume "\<not> m < k"
      then consider "m = k" | "k < m" by linarith
      then have "e_off (es ! k) \<le> e_off (es ! m)"
      proof cases
        case 1
        then show ?thesis by simp
      next
        case 2
        from entries_from_off_mono(2)[OF all 2 m] show ?thesis by simp
      qed
      with om C(1) rj show False by (simp add: word_less_nat_alt)
    qed
    have g1: "unat (restarts ?it2) \<le> length (data ?it2)" using G(1) by simp
    have g2: "unat (current it) \<le> unat (restarts ?it2)"
      using v by (simp add: Valid_def word_less_nat_alt)
    from ParseNextKey_until_before[OF g1 g2 b dne] obtain it' e rest ri' where
      u: "ParseNextKey_until (current it) ?it2 = Inr it'"
      and dw: "dropWhile (\<lambda>e. e_voff e + e_vlen e < unat (current it)) (drop m es) = e # rest"
      and it': "it' = ?it2\<lparr>current := of_nat (e_off e), key := e_key e,
                    val := Slice (e_voff e) (e_vlen e), restart_index := ri'\<rparr>"
      and ri': "restart_index ?it2 < num_restarts ?it2 \<longrightarrow> ri' < num_restarts ?it2"
      by blast
    from mk have mt: "m \<le> k - 1" by simp
    from k k0 have t: "k - 1 < length es" by simp
    from k k0 C(1) have bd: "unat (current it)
        = (if Suc (k - 1) < length es then e_off (es ! Suc (k - 1)) else unat (restarts it))"
      by simp
    from entries_until[OF all mt t bd] dw have e: "e = es ! (k - 1)" by simp
    from it' e have p': "positioned it' (es ! (k - 1))" by (simp add: positioned_def)
    from t have "es ! (k - 1) \<in> set es" by simp
    from positioned_Valid[OF p' this es] it' have "Valid it'" by simp
    with P u it' p' ri' j k0 show ?thesis
      by (intro exI[of _ it']) (simp add: same_block_def)
  qed
qed

lemma SeekToLast_on_block:
  assumes wf: "well_formed it" and es: "block_entries it = Some es"
  shows "\<exists>it'. SeekToLast it = Inr it' \<and> status it' = status it \<and> same_block it' it
           \<and> (if es = [] then \<not> Valid it'
               else Valid it' \<and> positioned it' (es ! (length es - 1))
                    \<and> restart_index it' < num_restarts it')"
proof -
  note G = well_formed_geometry[OF wf]
  from es have all: "entries_from (data it) (unat (restarts it)) 0 [] = Some es"
    by (simp add: block_entries_def)
  let ?j = "num_restarts it - 1"
  from G(3) have j: "?j < num_restarts it"
    by (simp add: word_less_nat_alt unat_pred_less word_neq_0_conv)
  let ?it2 = "it\<lparr>key := [], restart_index := ?j, val := Slice (unat (restart_point it ?j)) 0\<rparr>"
  from j have r: "SeekToRestartPoint ?j it = Inr ?it2"
    by (simp add: SeekToRestartPoint_def GetRestartPoint_eq)
  then have S: "SeekToLast it = ParseNextKey_until (restarts it) ?it2"
    by (simp add: SeekToLast_def)
  show ?thesis
  proof (cases "es = []")
    case True
    with wf es have "num_restarts it = 1" by (simp add: well_formed_def)
    with G(4) have "restart_point it ?j = 0" by simp
    with all True have "before ?it2 []" by (simp add: before_def)
    from ParseNextKey_at_end[OF this]
    have "ParseNextKey_until (restarts it) ?it2
            = Inr (?it2\<lparr>current := restarts it, restart_index := num_restarts it\<rparr>)"
      by (subst ParseNextKey_until.simps) simp
    with S True show ?thesis by (simp add: Valid_def same_block_def)
  next
    case False
    from restart_point_entry[OF wf es False j] obtain m where
      m: "m < length es"
      and dr: "entries_from (data it) (unat (restarts it)) (unat (restart_point it ?j)) []
               = Some (drop m es)"
      by blast
    from dr have b: "before ?it2 (drop m es)" by (simp add: before_def)
    from m have dne: "drop m es \<noteq> []" by simp
    have g1: "unat (restarts ?it2) \<le> length (data ?it2)" using G(1) by simp
    have g2: "unat (restarts it) \<le> unat (restarts ?it2)" by simp
    from ParseNextKey_until_before[OF g1 g2 b dne] obtain it' e rest ri' where
      u: "ParseNextKey_until (restarts it) ?it2 = Inr it'"
      and dw: "dropWhile (\<lambda>e. e_voff e + e_vlen e < unat (restarts it)) (drop m es) = e # rest"
      and it': "it' = ?it2\<lparr>current := of_nat (e_off e), key := e_key e,
                    val := Slice (e_voff e) (e_vlen e), restart_index := ri'\<rparr>"
      and ri': "restart_index ?it2 < num_restarts ?it2 \<longrightarrow> ri' < num_restarts ?it2"
      by blast
    from m have mt: "m \<le> length es - 1" by simp
    from False have t: "length es - 1 < length es" by simp
    from False have bd: "unat (restarts it)
        = (if Suc (length es - 1) < length es then e_off (es ! Suc (length es - 1))
           else unat (restarts it))"
      by simp
    from entries_until[OF all mt t bd] dw have e: "e = es ! (length es - 1)" by simp
    from it' e have p': "positioned it' (es ! (length es - 1))" by (simp add: positioned_def)
    from t have "es ! (length es - 1) \<in> set es" by (rule nth_mem)
    from positioned_Valid[OF p' this es] it' have "Valid it'" by simp
    with S u it' p' ri' j False show ?thesis
      by (intro exI[of _ it']) (simp add: same_block_def)
  qed
qed

lemma block_entries_same: "same_block c it \<Longrightarrow> block_entries c = block_entries it"
  by (simp add: same_block_def block_entries_def)

lemma restart_entry_same: "same_block c it \<Longrightarrow> restart_entry c = restart_entry it"
  by (intro ext) (simp add: same_block_def restart_entry_def restart_point_def)

lemma well_formed_same:
  assumes "same_block c it"
  shows "well_formed c = well_formed it"
proof -
  from assms have "data c = data it" "restarts c = restarts it" "num_restarts c = num_restarts it"
    "restart_point c = restart_point it"
    by (auto simp: same_block_def restart_point_def)
  then show ?thesis
    unfolding well_formed_def block_entries_same[OF assms] restart_entry_same[OF assms]
    by (simp only:)
qed

lemma same_block_trans: "same_block a b \<Longrightarrow> same_block b c \<Longrightarrow> same_block a c"
  by (simp add: same_block_def)

lemma entry_of_positioned:
  assumes "Valid it" and "positioned it e" and "e_voff e + e_vlen e \<le> length (data it)"
  shows "entry_of it = Inr (entry_kv (data it) e)"
  using assms
  by (simp add: entry_of_def key_of_def value_of_def positioned_def read_bytes_def entry_kv_def)

text \<open>Walking backwards from the \<open>k\<close>-th entry gives the entries \<open>k, k - 1, \<dots>, 0\<close>.\<close>

lemma backward_rest_from:
  assumes wf: "well_formed it" and es: "block_entries it = Some es"
  shows "k < length es \<Longrightarrow> positioned c (es ! k) \<Longrightarrow> restart_index c < num_restarts c \<Longrightarrow>
     same_block c it \<Longrightarrow>
     backward_rest c = Inr (rev (map (entry_kv (data it)) (take (Suc k) es)))"
proof (induction k arbitrary: c)
  case 0
  from 0(4) wf have wfc: "well_formed c" by (simp add: well_formed_same)
  from 0(4) es have esc: "block_entries c = Some es" by (simp add: block_entries_same)
  from 0(1) have mem: "es ! 0 \<in> set es" by simp
  from positioned_Valid[OF 0(2) mem esc refl] have v: "Valid c" .
  from positioned_current(2)[OF 0(2) mem esc] well_formed_geometry(1)[OF wfc]
  have "e_voff (es ! 0) + e_vlen (es ! 0) \<le> length (data c)" by simp
  from entry_of_positioned[OF v 0(2) this] 0(4)
  have e: "entry_of c = Inr (entry_kv (data it) (es ! 0))" by (simp add: same_block_def)
  from Prev_on_entry[OF wfc esc 0(1,2,3)] obtain c' where
    p: "Prev c = Inr c'" and "\<not> Valid c'"
    by auto
  then have "backward_rest c' = Inr []" by (subst backward_rest.simps) simp
  with v e p have "backward_rest c = Inr [entry_kv (data it) (es ! 0)]"
    by (subst backward_rest.simps) simp
  moreover from 0(1) have "take (Suc 0) es = [es ! 0]"
    by (cases es) simp_all
  ultimately show ?case by simp
next
  case (Suc k)
  from Suc(5) wf have wfc: "well_formed c" by (simp add: well_formed_same)
  from Suc(5) es have esc: "block_entries c = Some es" by (simp add: block_entries_same)
  from Suc(2) have mem: "es ! Suc k \<in> set es" by simp
  from positioned_Valid[OF Suc(3) mem esc refl] have v: "Valid c" .
  from positioned_current(2)[OF Suc(3) mem esc] well_formed_geometry(1)[OF wfc]
  have "e_voff (es ! Suc k) + e_vlen (es ! Suc k) \<le> length (data c)" by simp
  from entry_of_positioned[OF v Suc(3) this] Suc(5)
  have e: "entry_of c = Inr (entry_kv (data it) (es ! Suc k))" by (simp add: same_block_def)
  from Prev_on_entry[OF wfc esc Suc(2,3,4)] obtain c' where
    p: "Prev c = Inr c'" and sb: "same_block c' c" and pk: "positioned c' (es ! k)"
    and rk: "restart_index c' < num_restarts c'"
    by auto
  from Suc(2) have k: "k < length es" by simp
  from Suc.IH[OF k pk rk same_block_trans[OF sb Suc(5)]]
  have "backward_rest c' = Inr (rev (map (entry_kv (data it)) (take (Suc k) es)))" .
  with v e p have "backward_rest c
      = Inr (entry_kv (data it) (es ! Suc k) # rev (map (entry_kv (data it)) (take (Suc k) es)))"
    by (subst backward_rest.simps) simp
  moreover from Suc(2) have "take (Suc (Suc k)) es = take (Suc k) es @ [es ! Suc k]"
    by (rule take_Suc_conv_app_nth)
  ultimately show ?case by simp
qed

text \<open>Walking forwards from an entry gives that entry and the entries behind it.\<close>

lemma forward_rest_from:
  assumes g: "unat (restarts it) \<le> length (data it)"
  shows "Valid c \<Longrightarrow> positioned c e \<Longrightarrow> before c rest \<Longrightarrow> same_block c it \<Longrightarrow>
     forward_rest c = Inr (map (entry_kv (data it)) (e # rest))"
proof (induction rest arbitrary: c e)
  case Nil
  from Nil(3) obtain vo vl where "val c = Slice vo vl"
    "entries_from (data c) (unat (restarts c)) (vo + vl) (key c) = Some []"
    by (auto simp: before_def)
  with Nil(2) have "e_voff e + e_vlen e = unat (restarts c)"
    by (simp add: positioned_def entries_from_Nil)
  with g Nil(4) have "e_voff e + e_vlen e \<le> length (data c)" by (simp add: same_block_def)
  from entry_of_positioned[OF Nil(1,2) this] Nil(4)
  have e: "entry_of c = Inr (entry_kv (data it) e)" by (simp add: same_block_def)
  from ParseNextKey_at_end[OF Nil(3)] Nil(1)
  have n: "Next c = Inr (c\<lparr>current := restarts c, restart_index := num_restarts c\<rparr>)"
    by (simp add: Next_def)
  have "forward_rest (c\<lparr>current := restarts c, restart_index := num_restarts c\<rparr>) = Inr []"
    by (subst forward_rest.simps) (simp add: Valid_def)
  with Nil(1) e n show ?case by (subst forward_rest.simps) simp
next
  case (Cons e' rest)
  from Cons(5) g have gc: "unat (restarts c) \<le> length (data c)" by (simp add: same_block_def)
  from Cons(4) obtain vo vl where vc: "val c = Slice vo vl"
    and ef: "entries_from (data c) (unat (restarts c)) (vo + vl) (key c) = Some (e' # rest)"
    by (auto simp: before_def)
  from entries_from_le[OF ef] vc Cons(3) gc have "e_voff e + e_vlen e \<le> length (data c)"
    by (simp add: positioned_def)
  from entry_of_positioned[OF Cons(2,3) this] Cons(5)
  have e: "entry_of c = Inr (entry_kv (data it) e)" by (simp add: same_block_def)
  from ParseNextKey_at_entry[OF Cons(4) gc] obtain ri where
    p: "ParseNextKey c = Inr (c\<lparr>current := of_nat (e_off e'), key := e_key e',
                         val := Slice (e_voff e') (e_vlen e'), restart_index := ri\<rparr>, True)"
    by blast
  let ?c' = "c\<lparr>current := of_nat (e_off e'), key := e_key e',
                         val := Slice (e_voff e') (e_vlen e'), restart_index := ri\<rparr>"
  from p Cons(2) have n: "Next c = Inr ?c'" by (simp add: Next_def)
  have b': "before ?c' rest" by (rule before_after_entry[OF Cons(4)])
  have p': "positioned ?c' e'" by (simp add: positioned_def)
  from entries_from_Cons[OF ef] have lt: "e_off e' < unat (restarts c)" by auto
  have "unat (of_nat (e_off e') :: u32) = e_off e'"
    by (rule unat_of_nat_u32) (use lt unat_u32_less[of "restarts c"] in simp)
  with lt have v': "Valid ?c'" by (simp add: Valid_def word_less_nat_alt)
  have sb': "same_block ?c' it" using Cons(5) by (simp add: same_block_def)
  from Cons.IH[OF v' p' b' sb']
  have "forward_rest ?c' = Inr (map (entry_kv (data it)) (e' # rest))" .
  with Cons(2) e n show ?case by (subst forward_rest.simps) simp
qed

lemma forward_scan_entries:
  assumes wf: "well_formed it" and es: "block_entries it = Some es"
  shows "forward_scan it = Inr (map (entry_kv (data it)) es)"
proof -
  note G = well_formed_geometry[OF wf]
  from es have all: "entries_from (data it) (unat (restarts it)) 0 [] = Some es"
    by (simp add: block_entries_def)
  let ?it2 = "it\<lparr>key := [], restart_index := 0, val := Slice (unat (restart_point it 0)) 0\<rparr>"
  from G(3) have r: "SeekToRestartPoint 0 it = Inr ?it2"
    by (simp add: SeekToRestartPoint_def GetRestartPoint_eq)
  from all G(4) have b: "before ?it2 es" by (simp add: before_def)
  show ?thesis
  proof (cases es)
    case Nil
    with b have "before ?it2 []" by simp
    from ParseNextKey_at_end[OF this] r
    have "SeekToFirst it = Inr (?it2\<lparr>current := restarts it, restart_index := num_restarts it\<rparr>)"
      by (simp add: SeekToFirst_def)
    moreover have "forward_rest (?it2\<lparr>current := restarts it, restart_index := num_restarts it\<rparr>)
        = Inr []"
      by (subst forward_rest.simps) (simp add: Valid_def)
    ultimately show ?thesis using Nil by (simp add: forward_scan_def)
  next
    case (Cons e rest)
    with b have be: "before ?it2 (e # rest)" by simp
    have g2: "unat (restarts ?it2) \<le> length (data ?it2)" using G(1) by simp
    from ParseNextKey_at_entry[OF be g2] obtain ri where
      p: "ParseNextKey ?it2 = Inr (?it2\<lparr>current := of_nat (e_off e), key := e_key e,
                         val := Slice (e_voff e) (e_vlen e), restart_index := ri\<rparr>, True)"
      by blast
    let ?c = "?it2\<lparr>current := of_nat (e_off e), key := e_key e,
                         val := Slice (e_voff e) (e_vlen e), restart_index := ri\<rparr>"
    from p r have s: "SeekToFirst it = Inr ?c" by (simp add: SeekToFirst_def)
    have pc: "positioned ?c e" by (simp add: positioned_def)
    from Cons have "e \<in> set es" by simp
    from positioned_Valid[OF pc this es] have vc: "Valid ?c" by simp
    have bc: "before ?c rest" by (rule before_after_entry[OF be])
    have sb: "same_block ?c it" by (simp add: same_block_def)
    from forward_rest_from[OF G(1) vc pc bc sb] s Cons show ?thesis
      by (simp add: forward_scan_def)
  qed
qed

lemma backward_scan_entries:
  assumes wf: "well_formed it" and es: "block_entries it = Some es"
  shows "backward_scan it = Inr (rev (map (entry_kv (data it)) es))"
proof (cases "es = []")
  case True
  with SeekToLast_on_block[OF wf es] obtain it' where
    "SeekToLast it = Inr it'" "\<not> Valid it'"
    by auto
  moreover from this have "backward_rest it' = Inr []"
    by (subst backward_rest.simps) simp
  ultimately show ?thesis using True by (simp add: backward_scan_def)
next
  case False
  with SeekToLast_on_block[OF wf es] obtain it' where
    s: "SeekToLast it = Inr it'" and sb: "same_block it' it"
    and p: "positioned it' (es ! (length es - 1))" and r: "restart_index it' < num_restarts it'"
    by auto
  from False have k: "length es - 1 < length es" by simp
  from backward_rest_from[OF wf es k p r sb] False s show ?thesis
    by (simp add: backward_scan_def)
qed

text \<open>
  C5. On a well-formed block the forward walk (\<^verbatim>\<open>SeekToFirst\<close>, then \<^verbatim>\<open>Next\<close> while the
  cursor is valid) collects the entries of the block in order, and the backward walk
  (\<^verbatim>\<open>SeekToLast\<close>, then \<^verbatim>\<open>Prev\<close> while the cursor is valid) collects exactly the reverse
  of that sequence of (key, value) pairs. \<^verbatim>\<open>Prev\<close> on the \<open>k\<close>-th entry leaves the status as
  it was and the cursor on entry \<open>k - 1\<close>; it leaves the cursor Invalid exactly when
  \<open>k = 0\<close>, when there is no entry before it.
\<close>

theorem Prev_reverses_forward:
  assumes "well_formed it" and "block_entries it = Some es"
  shows "forward_scan it = Inr (map (entry_kv (data it)) es)
       \<and> backward_scan it = Inr (rev (map (entry_kv (data it)) es))
       \<and> (\<forall>c k. k < length es \<and> same_block c it \<and> positioned c (es ! k)
                  \<and> restart_index c < num_restarts c \<longrightarrow>
              (\<exists>c'. Prev c = Inr c' \<and> status_of c' = status_of c
                  \<and> (Valid c' \<longleftrightarrow> 0 < k)
                  \<and> (0 < k \<longrightarrow> positioned c' (es ! (k - 1)))))"
proof (intro conjI allI impI)
  show "forward_scan it = Inr (map (entry_kv (data it)) es)"
    by (rule forward_scan_entries[OF assms])
  show "backward_scan it = Inr (rev (map (entry_kv (data it)) es))"
    by (rule backward_scan_entries[OF assms])
next
  fix c k
  assume a: "k < length es \<and> same_block c it \<and> positioned c (es ! k)
                  \<and> restart_index c < num_restarts c"
  then have sb: "same_block c it" by simp
  from sb assms(1) have wfc: "well_formed c" by (simp add: well_formed_same)
  from sb assms(2) have esc: "block_entries c = Some es" by (simp add: block_entries_same)
  from a have k: "k < length es" and p: "positioned c (es ! k)"
    and r: "restart_index c < num_restarts c"
    by simp_all
  from Prev_on_entry[OF wfc esc k p r] obtain c' where
    "Prev c = Inr c'" "status c' = status c"
    "if k = 0 then \<not> Valid c' else Valid c' \<and> positioned c' (es ! (k - 1))
                    \<and> restart_index c' < num_restarts c'"
    by blast
  then show "\<exists>c'. Prev c = Inr c' \<and> status_of c' = status_of c
                  \<and> (Valid c' \<longleftrightarrow> 0 < k)
                  \<and> (0 < k \<longrightarrow> positioned c' (es ! (k - 1)))"
    by (intro exI[of _ c']) (auto simp: status_of_def split: if_splits)
qed

theorem Prev_reverses_forward_witness:
  "well_formed two_run_iter \<and> block_entries two_run_iter = Some two_run_entries
   \<and> forward_scan two_run_iter
       = Inr [([0x61, 0x61], [0x31]), ([0x61, 0x62], [0x32]),
              ([0x62, 0x61], [0x33]), ([0x62, 0x62], [0x34])]
   \<and> backward_scan two_run_iter
       = Inr [([0x62, 0x62], [0x34]), ([0x62, 0x61], [0x33]),
              ([0x61, 0x62], [0x32]), ([0x61, 0x61], [0x31])]
   \<and> same_block two_run_at_third two_run_iter
   \<and> positioned two_run_at_third (two_run_entries ! 2)
   \<and> restart_index two_run_at_third < num_restarts two_run_at_third
   \<and> (\<exists>c'. Prev two_run_at_third = Inr c' \<and> Valid c' \<and> positioned c' (two_run_entries ! 1)
          \<and> status_of c' = OK)"
proof -
  note T = Prev_reverses_forward[OF two_run_well_formed two_run_block_entries]
  have m: "map (entry_kv (data two_run_iter)) two_run_entries
      = [([0x61, 0x61], [0x31]), ([0x61, 0x62], [0x32]),
         ([0x62, 0x61], [0x33]), ([0x62, 0x62], [0x34])]"
    by (simp add: entry_kv_def two_run_entries_def two_run_iter_def two_run_block_def)
  from T m have f: "forward_scan two_run_iter
       = Inr [([0x61, 0x61], [0x31]), ([0x61, 0x62], [0x32]),
              ([0x62, 0x61], [0x33]), ([0x62, 0x62], [0x34])]"
    by simp
  from T m have b: "backward_scan two_run_iter
       = Inr [([0x62, 0x62], [0x34]), ([0x62, 0x61], [0x33]),
              ([0x61, 0x62], [0x32]), ([0x61, 0x61], [0x31])]"
    by simp
  have h: "2 < length two_run_entries \<and> same_block two_run_at_third two_run_iter
      \<and> positioned two_run_at_third (two_run_entries ! 2)
      \<and> restart_index two_run_at_third < num_restarts two_run_at_third"
    by (simp add: same_block_def positioned_def two_run_at_third_def two_run_iter_def
        two_run_entries_def)
  from T have "\<forall>c k. k < length two_run_entries \<and> same_block c two_run_iter
                  \<and> positioned c (two_run_entries ! k)
                  \<and> restart_index c < num_restarts c \<longrightarrow>
              (\<exists>c'. Prev c = Inr c' \<and> status_of c' = status_of c
                  \<and> (Valid c' \<longleftrightarrow> 0 < k)
                  \<and> (0 < k \<longrightarrow> positioned c' (two_run_entries ! (k - 1))))"
    by blast
  with h have "\<exists>c'. Prev two_run_at_third = Inr c' \<and> status_of c' = status_of two_run_at_third
                  \<and> (Valid c' \<longleftrightarrow> 0 < (2::nat))
                  \<and> (0 < (2::nat) \<longrightarrow> positioned c' (two_run_entries ! (2 - 1)))"
    by blast
  then have p: "\<exists>c'. Prev two_run_at_third = Inr c' \<and> Valid c'
      \<and> positioned c' (two_run_entries ! 1) \<and> status_of c' = OK"
    by (auto simp: status_of_def two_run_at_third_def)
  from two_run_well_formed two_run_block_entries f b h p show ?thesis by blast
qed

end
